theory Spec2Isabelle
  imports Main
begin

section \<open>Strings\<close>

text \<open>
  Python strings are modelled as \<^typ>\<open>string\<close>. The program lower-cases file
  suffixes (\<^verbatim>\<open>path.suffix.lower()\<close>) and pathlib lower-cases the components of a
  Windows path when it compares two paths; every string the program compares against
  is ASCII, so \<open>lower\<close> maps the letters \<open>A\<close> to \<open>Z\<close> and leaves every other
  character alone.
\<close>

definition sep :: char where
  "sep = CHR 0x5C"

definition altsep :: char where
  "altsep = CHR ''/''"

definition lower_char :: "char \<Rightarrow> char" where
  "lower_char ch =
     (case map_of (zip ''ABCDEFGHIJKLMNOPQRSTUVWXYZ'' ''abcdefghijklmnopqrstuvwxyz'') ch of
        Some l \<Rightarrow> l
      | None \<Rightarrow> ch)"

definition lower :: "string \<Rightarrow> string" where
  "lower s = map lower_char s"

text \<open>\<^verbatim>\<open>s.find(ch)\<close> and \<^verbatim>\<open>s.find(ch, start)\<close>: the first index, \<open>None\<close> for Python's -1.\<close>

fun find :: "char \<Rightarrow> string \<Rightarrow> nat option" where
  "find ch [] = None"
| "find ch (x # xs) = (if x = ch then Some 0 else map_option Suc (find ch xs))"

definition find_from :: "char \<Rightarrow> nat \<Rightarrow> string \<Rightarrow> nat option" where
  "find_from ch start s = map_option (\<lambda>i. i + start) (find ch (drop start s))"

text \<open>\<^verbatim>\<open>s.rfind(ch)\<close>: the last index, \<open>None\<close> for Python's -1.\<close>

fun rfind :: "char \<Rightarrow> string \<Rightarrow> nat option" where
  "rfind ch [] = None"
| "rfind ch (x # xs) =
     (case rfind ch xs of
        Some i \<Rightarrow> Some (Suc i)
      | None \<Rightarrow> if x = ch then Some 0 else None)"

text \<open>\<^verbatim>\<open>s.split(ch)\<close>, \<^verbatim>\<open>ch.join(xs)\<close>, \<^verbatim>\<open>s.startswith(t)\<close> and \<^verbatim>\<open>t in s\<close>.\<close>

fun split :: "char \<Rightarrow> string \<Rightarrow> string list" where
  "split ch [] = [[]]"
| "split ch (x # xs) =
     (if x = ch then [] # split ch xs
      else (case split ch xs of
              w # ws \<Rightarrow> (x # w) # ws
            | [] \<Rightarrow> [[x]]))"

fun join :: "char \<Rightarrow> string list \<Rightarrow> string" where
  "join ch [] = []"
| "join ch [x] = x"
| "join ch (x # y # ys) = x @ ch # join ch (y # ys)"

fun startswith :: "string \<Rightarrow> string \<Rightarrow> bool" where
  "startswith s [] = True"
| "startswith [] (t # ts) = False"
| "startswith (x # xs) (t # ts) = (x = t \<and> startswith xs ts)"

fun contains :: "string \<Rightarrow> string \<Rightarrow> bool" where
  "contains [] t = (t = [])"
| "contains (x # xs) t = (startswith (x # xs) t \<or> contains xs t)"


section \<open>Paths: pathlib's Windows flavour\<close>

text \<open>
  \<^verbatim>\<open>app/cleaner/__init__.py\<close> and \<^verbatim>\<open>app/main.py\<close> load \<^verbatim>\<open>WindowsCleaner\<close> on
  Windows, where \<^verbatim>\<open>Path(...)\<close> builds a \<^verbatim>\<open>WindowsPath\<close>. A path is the triple
  pathlib keeps: the drive, the root and the components below the anchor (pathlib's
  \<^verbatim>\<open>_parts\<close> without its first entry \<^verbatim>\<open>drv + root\<close> when there is one).
\<close>

record path =
  drv :: string
  root :: string
  parts :: "string list"

definition drive_letters :: "char set" where
  "drive_letters = set ''abcdefghijklmnopqrstuvwxyzABCDEFGHIJKLMNOPQRSTUVWXYZ''"

definition ext_namespace_prefix :: string where
  "ext_namespace_prefix = [sep, sep, CHR ''?'', sep]"

definition split_extended_path :: "string \<Rightarrow> string \<times> string" where
  "split_extended_path s =
     (if startswith s ext_namespace_prefix then
        (let s' = drop 4 s in
         if startswith s' (''UNC'' @ [sep]) then (take 4 s @ take 3 s', sep # drop 3 s')
         else (take 4 s, s'))
      else ([], s))"

text \<open>
  \<^verbatim>\<open>_WindowsFlavour.splitroot\<close>: a UNC share or a drive letter, then the root, then
  the rest.
\<close>

definition splitroot :: "string \<Rightarrow> string \<times> string \<times> string" where
  "splitroot part0 =
     (let (prefix, part) =
            (if take 1 (drop 1 part0) = [sep] \<and> take 1 part0 = [sep]
             then split_extended_path part0 else ([], part0));
          first = take 1 part;
          second = take 1 (drop 1 part);
          third = take 1 (drop 2 part);
          unc =
            (if second = [sep] \<and> first = [sep] \<and> third \<noteq> [sep] then
               (case find_from sep 2 part of
                  None \<Rightarrow> None
                | Some index \<Rightarrow>
                    (let index2 = find_from sep (index + 1) part in
                     if index2 = Some (index + 1) then None
                     else
                       (let stop = (case index2 of None \<Rightarrow> length part | Some i \<Rightarrow> i) in
                        Some (if prefix \<noteq> [] then prefix @ drop 1 (take stop part)
                              else take stop part,
                              [sep], drop (stop + 1) part))))
             else None)
      in case unc of
           Some r \<Rightarrow> r
         | None \<Rightarrow>
             (let has_drive = (second = '':'' \<and> first \<noteq> [] \<and> hd first \<in> drive_letters);
                  d = (if has_drive then take 2 part else []);
                  rest = (if has_drive then drop 2 part else part);
                  first' = (if has_drive then third else first)
              in if first' = [sep] then (prefix @ d, first', dropWhile (\<lambda>ch. ch = sep) rest)
                 else (prefix @ d, [], rest)))"

text \<open>
  \<^verbatim>\<open>Path(s)\<close> for one string: both separators are accepted, empty components and
  \<^verbatim>\<open>.\<close> components are dropped. \<^verbatim>\<open>Path('')\<close> has no drive, no root and no
  component: it is the path \<^verbatim>\<open>.\<close>, the current directory.
\<close>

definition Path :: "string \<Rightarrow> path" where
  "Path s =
     (case splitroot (map (\<lambda>ch. if ch = altsep then sep else ch) s) of
        (d, r, rel) \<Rightarrow>
          \<lparr>drv = d, root = r, parts = filter (\<lambda>x. x \<noteq> [] \<and> x \<noteq> ''.'') (split sep rel)\<rparr>)"

text \<open>\<^verbatim>\<open>p / s\<close> (\<^verbatim>\<open>join_parsed_parts\<close>).\<close>

definition joinpath :: "path \<Rightarrow> string \<Rightarrow> path" where
  "joinpath p s =
     (let q = Path s in
      if root q \<noteq> [] then
        (if drv q = [] \<and> drv p \<noteq> [] then \<lparr>drv = drv p, root = root q, parts = parts q\<rparr> else q)
      else if drv q \<noteq> [] then
        (if lower (drv q) = lower (drv p)
         then \<lparr>drv = drv p, root = root p, parts = parts p @ parts q\<rparr> else q)
      else \<lparr>drv = drv p, root = root p, parts = parts p @ parts q\<rparr>)"

text \<open>\<^verbatim>\<open>str(p)\<close>.\<close>

definition str :: "path \<Rightarrow> string" where
  "str p = (let s = drv p @ root p @ join sep (parts p) in if s = [] then ''.'' else s)"

text \<open>
  \<^verbatim>\<open>p == q\<close> on Windows paths compares the case-folded parts (\<^verbatim>\<open>_cparts\<close>).
\<close>

definition casefold :: "path \<Rightarrow> path" where
  "casefold p = \<lparr>drv = lower (drv p), root = lower (root p), parts = map lower (parts p)\<rparr>"

definition path_eq :: "path \<Rightarrow> path \<Rightarrow> bool" where
  "path_eq p q \<longleftrightarrow> casefold p = casefold q"

text \<open>
  \<^verbatim>\<open>p.parents\<close>: the logical ancestors, nearest first; \<^verbatim>\<open>p.name\<close> and
  \<^verbatim>\<open>p.suffix\<close>.
\<close>

definition parents :: "path \<Rightarrow> path list" where
  "parents p = map (\<lambda>k. p\<lparr>parts := take k (parts p)\<rparr>) (rev [0..<length (parts p)])"

definition name :: "path \<Rightarrow> string" where
  "name p = (if parts p = [] then [] else last (parts p))"

definition suffix :: "path \<Rightarrow> string" where
  "suffix p =
     (let n = name p in
      case rfind CHR ''.'' n of
        Some i \<Rightarrow> if 0 < i \<and> i + 1 < length n then drop i n else []
      | None \<Rightarrow> [])"


section \<open>The cleaner and its safety filter\<close>

text \<open>
  The process environment that \<^verbatim>\<open>WindowsCleaner.__init__\<close> reads: the home
  directory (\<^verbatim>\<open>Path.home()\<close>) and \<^verbatim>\<open>os.environ\<close>.
\<close>

record environment =
  home :: path
  environ :: "(string \<times> string) list"

definition environ_get :: "environment \<Rightarrow> string \<Rightarrow> string \<Rightarrow> string" where
  "environ_get env k dflt = (case map_of (environ env) k of Some v \<Rightarrow> v | None \<Rightarrow> dflt)"

record cleaner =
  user_home :: path
  temp_dir :: path
  local_app_data :: path
  app_data :: path
  protected_dirs :: "path list"
  protected_extensions :: "string list"

definition init :: "environment \<Rightarrow> cleaner" where
  "init env =
     \<lparr>user_home = home env,
      temp_dir = Path (environ_get env ''TEMP'' ''''),
      local_app_data = Path (environ_get env ''LOCALAPPDATA'' ''''),
      app_data = Path (environ_get env ''APPDATA'' ''''),
      protected_dirs =
        [Path ''C:/Windows/System32'',
         Path ''C:/Windows/SysWOW64'',
         Path ''C:/Program Files'',
         Path ''C:/Program Files (x86)'',
         joinpath (home env) ''Documents'',
         joinpath (home env) ''Desktop'',
         joinpath (home env) ''Pictures'',
         joinpath (home env) ''Downloads''],
      protected_extensions =
        [''.exe'', ''.dll'', ''.sys'', ''.msi'', ''.bat'', ''.cmd'', ''.ps1'',
         ''.doc'', ''.docx'', ''.xls'', ''.xlsx'', ''.pdf'', ''.ppt'', ''.pptx'']\<rparr>"

text \<open>
  \<^verbatim>\<open>WindowsCleaner._is_safe_to_delete\<close>. The three tests are pure computations on the
  path, none of them raises, so the \<^verbatim>\<open>except Exception: return False\<close> of the source
  has no case here.
\<close>

definition is_safe_to_delete :: "cleaner \<Rightarrow> path \<Rightarrow> bool" where
  "is_safe_to_delete c p =
     (if list_ex (\<lambda>protected. path_eq p protected \<or> list_ex (path_eq protected) (parents p))
           (protected_dirs c)
      then False
      else if lower (suffix p) \<in> set (protected_extensions c) then False
      else if contains (str p) (''Windows'' @ [sep] @ ''System32'')
              \<or> contains (str p) (''Windows'' @ [sep] @ ''SysWOW64'') then False
      else True)"

text \<open>
  The specification's ``nested inside'': the directory's components are a proper
  prefix of the path's, on the same drive and root, compared as Windows compares names.
\<close>

definition nested_under :: "path \<Rightarrow> path \<Rightarrow> bool" where
  "nested_under p d \<longleftrightarrow>
     lower (drv p) = lower (drv d) \<and> lower (root p) = lower (root d)
     \<and> length (parts d) < length (parts p)
     \<and> take (length (parts d)) (map lower (parts p)) = map lower (parts d)"


section \<open>The file system\<close>

text \<open>
  The file system as the process sees it: the names it can reach, each with a node.
  A node is a regular file with its size or a directory; three flags say which system
  calls the operating system refuses on it (\<^verbatim>\<open>stat\<close>, removal, listing a directory).
  Names are compared as Windows compares them, component by component: a name is found
  under the spelling pathlib gives it, and a \<^verbatim>\<open>..\<close> component is not resolved.
  The file system also records the
  removal calls it has received (\<^verbatim>\<open>unlink\<close> and \<^verbatim>\<open>rmtree\<close>), in order.
  The file system does not change except through the calls of the program.
  The exceptions are the three kinds of \<^verbatim>\<open>OSError\<close> the calls of the model
  raise; \<^verbatim>\<open>ValueError\<close> stands for an exception that is not an \<^verbatim>\<open>OSError\<close>,
  which the handlers of \<^verbatim>\<open>utils.py\<close> let pass.
\<close>

datatype exc = PermissionError | FileNotFoundError | NotADirectoryError | ValueError

definition is_OSError :: "exc \<Rightarrow> bool" where
  "is_OSError e \<longleftrightarrow> e \<noteq> ValueError"

datatype kind = Regular nat | Directory

record node =
  kind :: kind
  stat_denied :: bool
  remove_denied :: bool
  list_denied :: bool

record filesystem =
  entries :: "(path \<times> node) list"
  removal_calls :: "path list"

fun lookup_entry :: "(path \<times> node) list \<Rightarrow> path \<Rightarrow> node option" where
  "lookup_entry [] p = None"
| "lookup_entry ((k, n) # es) p = (if path_eq k p then Some n else lookup_entry es p)"

definition lookup :: "filesystem \<Rightarrow> path \<Rightarrow> node option" where
  "lookup fs p = lookup_entry (entries fs) p"

definition stat :: "filesystem \<Rightarrow> path \<Rightarrow> exc + node" where
  "stat fs p =
     (case lookup fs p of
        None \<Rightarrow> Inl FileNotFoundError
      | Some n \<Rightarrow> if stat_denied n then Inl PermissionError else Inr n)"

definition st_size :: "node \<Rightarrow> int" where
  "st_size n = (case kind n of Regular s \<Rightarrow> int s | Directory \<Rightarrow> 0)"

text \<open>
  \<^verbatim>\<open>Path.exists\<close>, \<^verbatim>\<open>Path.is_file\<close> and \<^verbatim>\<open>Path.is_dir\<close> call \<^verbatim>\<open>stat\<close>; they
  answer \<^verbatim>\<open>False\<close> when the name is not there and pass every other error on.
\<close>

definition ignore_error :: "exc \<Rightarrow> bool" where
  "ignore_error e \<longleftrightarrow> e = FileNotFoundError \<or> e = NotADirectoryError"

definition stat_test :: "(node \<Rightarrow> bool) \<Rightarrow> filesystem \<Rightarrow> path \<Rightarrow> exc + bool" where
  "stat_test t fs p =
     (case stat fs p of
        Inr n \<Rightarrow> Inr (t n)
      | Inl e \<Rightarrow> if e = ValueError \<or> ignore_error e then Inr False else Inl e)"

definition exists :: "filesystem \<Rightarrow> path \<Rightarrow> exc + bool" where
  "exists = stat_test (\<lambda>n. True)"

definition is_file :: "filesystem \<Rightarrow> path \<Rightarrow> exc + bool" where
  "is_file = stat_test (\<lambda>n. case kind n of Regular _ \<Rightarrow> True | Directory \<Rightarrow> False)"

definition is_dir :: "filesystem \<Rightarrow> path \<Rightarrow> exc + bool" where
  "is_dir = stat_test (\<lambda>n. kind n = Directory)"

text \<open>
  Globbing. \<^verbatim>\<open>fnmatch\<close> knows \<^verbatim>\<open>*\<close> and \<^verbatim>\<open>?\<close> (the patterns of this program have
  no character class); on Windows a pattern matches a name whatever the case.
\<close>

function fnmatch :: "string \<Rightarrow> string \<Rightarrow> bool" where
  "fnmatch [] n = (n = [])"
| "fnmatch (p # ps) [] = (p = CHR ''*'' \<and> fnmatch ps [])"
| "fnmatch (p # ps) (x # xs) =
     (if p = CHR ''*'' then fnmatch ps (x # xs) \<or> fnmatch (p # ps) xs
      else (p = CHR ''?'' \<or> p = x) \<and> fnmatch ps xs)"
  by pat_completeness auto
termination
  by (relation "measure (\<lambda>(p, n). length p + length n)") auto

definition matches :: "string \<Rightarrow> path \<Rightarrow> bool" where
  "matches pattern p \<longleftrightarrow> fnmatch (lower pattern) (lower (name p))"

definition is_ancestor :: "path \<Rightarrow> path \<Rightarrow> bool" where
  "is_ancestor a p \<longleftrightarrow> list_ex (path_eq a) (parents p)"

definition is_child :: "path \<Rightarrow> path \<Rightarrow> bool" where
  "is_child d p \<longleftrightarrow> (case parents p of [] \<Rightarrow> False | a # _ \<Rightarrow> path_eq a d)"

definition listable :: "filesystem \<Rightarrow> path \<Rightarrow> bool" where
  "listable fs a \<longleftrightarrow>
     (case lookup fs a of
        Some n \<Rightarrow> kind n = Directory \<and> \<not> list_denied n
      | None \<Rightarrow> False)"

text \<open>
  \<^verbatim>\<open>os.scandir\<close>: the names directly inside a directory, in the order the directory
  lists them. pathlib's selectors swallow the \<^verbatim>\<open>PermissionError\<close> of a directory
  that cannot be listed and go on as if it were empty.
\<close>

definition children :: "filesystem \<Rightarrow> path \<Rightarrow> path list" where
  "children fs d = (if listable fs d then filter (is_child d) (map fst (entries fs)) else [])"

definition is_subdir :: "filesystem \<Rightarrow> path \<Rightarrow> bool" where
  "is_subdir fs k \<longleftrightarrow> (case lookup fs k of Some n \<Rightarrow> kind n = Directory | None \<Rightarrow> False)"

text \<open>
  \<^verbatim>\<open>rglob\<close> walks the directories from \<open>d\<close> down in pre-order (pathlib's
  \<^verbatim>\<open>_iterate_directories\<close>): a directory first, then the walk of each of its
  subdirectories in turn. For each directory of the walk, in that order, it yields the
  names directly inside it that match the pattern; so the matches of a directory come
  before those of its subdirectories. The paths it yields are \<open>d\<close> joined with the
  names found below it. A name directly inside a directory has one component more than
  the directory, and no name of the file system has more components than the longest
  one: this bounds the depth of the walk.
\<close>

function walk :: "filesystem \<Rightarrow> path \<Rightarrow> path list" where
  "walk fs d = d # concat (map (walk fs) (filter (is_subdir fs) (children fs d)))"
  by pat_completeness auto
termination
proof (relation "measure (\<lambda>(fs, d).
    Suc (Max (insert 0 ((\<lambda>(k, n). length (parts k)) ` set (entries fs)))) - length (parts d))")
  show "wf (measure (\<lambda>(fs, d).
    Suc (Max (insert 0 ((\<lambda>(k, n). length (parts k)) ` set (entries fs)))) - length (parts d)))"
    by simp
next
  fix fs :: filesystem and d x :: path
  let ?lens = "insert 0 ((\<lambda>(k, n). length (parts k)) ` set (entries fs))"
  assume "x \<in> set (filter (is_subdir fs) (children fs d))"
  then have key: "x \<in> fst ` set (entries fs)" and child: "is_child d x"
    by (auto simp: children_def split: if_splits)
  from key have "length (parts x) \<in> ?lens"
    by force
  then have bound: "length (parts x) \<le> Max ?lens"
    by (intro Max_ge) auto
  from child obtain a rest where ps: "parents x = a # rest" and eq: "path_eq a d"
    by (auto simp: is_child_def split: list.splits)
  from ps have pos: "0 < length (parts x)"
    by (auto simp: parents_def)
  then have "rev [0..<length (parts x)]
      = (length (parts x) - 1) # rev [0..<length (parts x) - 1]"
    by (cases "length (parts x)") auto
  with ps have "a = x\<lparr>parts := take (length (parts x) - 1) (parts x)\<rparr>"
    by (simp add: parents_def)
  with eq have "map lower (take (length (parts x) - 1) (parts x)) = map lower (parts d)"
    by (simp add: path_eq_def casefold_def)
  then have "length (take (length (parts x) - 1) (parts x)) = length (parts d)"
    by (rule map_eq_imp_length_eq)
  with pos have "length (parts x) = Suc (length (parts d))"
    by (cases "parts x") simp_all
  with bound show "((fs, x), (fs, d)) \<in> measure (\<lambda>(fs, d).
    Suc (Max (insert 0 ((\<lambda>(k, n). length (parts k)) ` set (entries fs)))) - length (parts d))"
    by simp
qed

declare walk.simps [simp del]

definition rebase :: "path \<Rightarrow> path \<Rightarrow> path" where
  "rebase d p = d\<lparr>parts := parts d @ drop (length (parts d)) (parts p)\<rparr>"

definition rglob :: "filesystem \<Rightarrow> path \<Rightarrow> string \<Rightarrow> exc + path list" where
  "rglob fs d pattern =
     (case is_dir fs d of
        Inl e \<Rightarrow> Inl e
      | Inr False \<Rightarrow> Inr []
      | Inr True \<Rightarrow>
          Inr (map (rebase d)
                 (concat (map (\<lambda>dir. filter (matches pattern) (children fs dir))
                            (walk fs d)))))"

definition glob :: "filesystem \<Rightarrow> path \<Rightarrow> string \<Rightarrow> exc + path list" where
  "glob fs d pattern =
     (case is_dir fs d of
        Inl e \<Rightarrow> Inl e
      | Inr False \<Rightarrow> Inr []
      | Inr True \<Rightarrow> Inr (map (rebase d) (filter (matches pattern) (children fs d))))"

definition iterdir :: "filesystem \<Rightarrow> path \<Rightarrow> exc + path list" where
  "iterdir fs d =
     (case lookup fs d of
        None \<Rightarrow> Inl FileNotFoundError
      | Some n \<Rightarrow>
          if kind n \<noteq> Directory then Inl NotADirectoryError
          else if list_denied n then Inl PermissionError
          else Inr (map (rebase d) (filter (is_child d) (map fst (entries fs)))))"

text \<open>
  Removal. \<^verbatim>\<open>unlink\<close> removes a regular file unless the system refuses.
  \<^verbatim>\<open>shutil.rmtree(p, ignore_errors=True)\<close> removes what it can below a directory and
  raises nothing: an entry stays when its removal is refused or when it lies below a
  directory that cannot be listed, and so does every directory above an entry that stays.
  A path with no component (the current directory, the root of a drive) is emptied and
  stays itself.
\<close>

definition log_removal :: "filesystem \<Rightarrow> path \<Rightarrow> filesystem" where
  "log_removal fs p = fs\<lparr>removal_calls := removal_calls fs @ [p]\<rparr>"

definition unlink :: "filesystem \<Rightarrow> path \<Rightarrow> (exc + unit) \<times> filesystem" where
  "unlink fs p =
     (let fs' = log_removal fs p in
      case lookup fs p of
        None \<Rightarrow> (Inl FileNotFoundError, fs')
      | Some n \<Rightarrow>
          if kind n = Directory \<or> remove_denied n then (Inl PermissionError, fs')
          else (Inr (), fs'\<lparr>entries := filter (\<lambda>(k, _). \<not> path_eq k p) (entries fs)\<rparr>))"

definition in_tree :: "path \<Rightarrow> path \<Rightarrow> bool" where
  "in_tree p k \<longleftrightarrow> path_eq k p \<or> is_ancestor p k"

definition stuck :: "filesystem \<Rightarrow> path \<Rightarrow> path \<Rightarrow> bool" where
  "stuck fs p k \<longleftrightarrow>
     in_tree p k
     \<and> ((case lookup fs k of Some n \<Rightarrow> remove_denied n | None \<Rightarrow> False)
        \<or> list_ex (\<lambda>(a, n). in_tree p a \<and> is_ancestor a k \<and> list_denied n) (entries fs))"

definition survives :: "filesystem \<Rightarrow> path \<Rightarrow> path \<Rightarrow> bool" where
  "survives fs p q \<longleftrightarrow>
     list_ex (\<lambda>(r, _). stuck fs p r \<and> (path_eq r q \<or> is_ancestor q r)) (entries fs)"

definition rmtree :: "filesystem \<Rightarrow> path \<Rightarrow> filesystem" where
  "rmtree fs p =
     (let fs' = log_removal fs p in
      case lookup fs p of
        None \<Rightarrow> fs'
      | Some n \<Rightarrow>
          if kind n \<noteq> Directory then fs'
          else fs'\<lparr>entries :=
                 filter (\<lambda>(k, _). \<not> in_tree p k \<or> survives fs p k
                                  \<or> (parts p = [] \<and> path_eq k p))
                   (entries fs)\<rparr>)"


section \<open>The utilities of \<^verbatim>\<open>app/utils.py\<close>\<close>

text \<open>
  The handler \<^verbatim>\<open>except (OSError, PermissionError)\<close> of the three utilities: it
  swallows an \<^verbatim>\<open>OSError\<close> and lets anything else pass. The logger calls do not
  touch the file system of the model and are left out.
\<close>

fun sum_sizes :: "filesystem \<Rightarrow> path list \<Rightarrow> exc + int" where
  "sum_sizes fs [] = Inr 0"
| "sum_sizes fs (f # rest) =
     (case is_file fs f of
        Inl e \<Rightarrow> Inl e
      | Inr False \<Rightarrow> sum_sizes fs rest
      | Inr True \<Rightarrow>
          (case stat fs f of
             Inl e \<Rightarrow> Inl e
           | Inr n \<Rightarrow>
               (case sum_sizes fs rest of
                  Inl e \<Rightarrow> Inl e
                | Inr s \<Rightarrow> Inr (st_size n + s))))"

definition get_file_size_try :: "filesystem \<Rightarrow> path \<Rightarrow> exc + int option" where
  "get_file_size_try fs p =
     (case is_file fs p of
        Inl e \<Rightarrow> Inl e
      | Inr True \<Rightarrow> (case stat fs p of Inl e \<Rightarrow> Inl e | Inr n \<Rightarrow> Inr (Some (st_size n)))
      | Inr False \<Rightarrow>
          (case is_dir fs p of
             Inl e \<Rightarrow> Inl e
           | Inr True \<Rightarrow>
               (case rglob fs p ''*'' of
                  Inl e \<Rightarrow> Inl e
                | Inr found \<Rightarrow>
                    (case sum_sizes fs found of Inl e \<Rightarrow> Inl e | Inr s \<Rightarrow> Inr (Some s)))
           | Inr False \<Rightarrow> Inr None))"

definition get_file_size :: "filesystem \<Rightarrow> path \<Rightarrow> exc + int" where
  "get_file_size fs p =
     (case get_file_size_try fs p of
        Inl e \<Rightarrow> if is_OSError e then Inr 0 else Inl e
      | Inr (Some s) \<Rightarrow> Inr s
      | Inr None \<Rightarrow> Inr 0)"

definition safe_remove_file :: "filesystem \<Rightarrow> path \<Rightarrow> (exc + bool) \<times> filesystem" where
  "safe_remove_file fs p =
     (case exists fs p of
        Inl e \<Rightarrow> (if is_OSError e then Inr False else Inl e, fs)
      | Inr False \<Rightarrow> (Inr False, fs)
      | Inr True \<Rightarrow>
          (case unlink fs p of
             (Inl e, fs') \<Rightarrow> (if is_OSError e then Inr False else Inl e, fs')
           | (Inr _, fs') \<Rightarrow> (Inr True, fs')))"

definition safe_remove_dir :: "filesystem \<Rightarrow> path \<Rightarrow> (exc + bool) \<times> filesystem" where
  "safe_remove_dir fs p =
     (case exists fs p of
        Inl e \<Rightarrow> (if is_OSError e then Inr False else Inl e, fs)
      | Inr False \<Rightarrow> (Inr False, fs)
      | Inr True \<Rightarrow>
          (let fs' = rmtree fs p in
           case exists fs' p of
             Inl e \<Rightarrow> (if is_OSError e then Inr False else Inl e, fs')
           | Inr b \<Rightarrow> (Inr (\<not> b), fs')))"


section \<open>Scanning\<close>

text \<open>
  A scan result is the pair the source returns: the list of file names (each the
  \<^verbatim>\<open>str\<close> of a path) and the total size.
\<close>

type_synonym scan_result = "string list \<times> int"

text \<open>
  The loop \<^verbatim>\<open>for file_path in directory.rglob(pattern)\<close> of
  \<^verbatim>\<open>_scan_directory\<close>. The lists \<^verbatim>\<open>files\<close> and \<^verbatim>\<open>total_size\<close> are local
  variables that the loop updates in place, so when an exception leaves the loop the
  handler still sees what was collected: the loop returns the exception, if any,
  together with the variables.
\<close>

fun scan_files ::
  "cleaner \<Rightarrow> filesystem \<Rightarrow> path list \<Rightarrow> scan_result \<Rightarrow> (exc + unit) \<times> scan_result" where
  "scan_files c fs [] acc = (Inr (), acc)"
| "scan_files c fs (file_path # rest) (files, total_size) =
     (case is_file fs file_path of
        Inl e \<Rightarrow> (Inl e, (files, total_size))
      | Inr b \<Rightarrow>
          if b \<and> is_safe_to_delete c file_path then
            (case get_file_size fs file_path of
               Inl e \<Rightarrow> (Inl e, (files, total_size))
             | Inr size' \<Rightarrow> scan_files c fs rest (files @ [str file_path], total_size + size'))
          else scan_files c fs rest (files, total_size))"

fun scan_patterns ::
  "cleaner \<Rightarrow> filesystem \<Rightarrow> path \<Rightarrow> string list \<Rightarrow> scan_result \<Rightarrow> (exc + unit) \<times> scan_result" where
  "scan_patterns c fs directory [] acc = (Inr (), acc)"
| "scan_patterns c fs directory (pattern # rest) acc =
     (case rglob fs directory pattern of
        Inl e \<Rightarrow> (Inl e, acc)
      | Inr found \<Rightarrow>
          (case scan_files c fs found acc of
             (Inl e, acc') \<Rightarrow> (Inl e, acc')
           | (Inr _, acc') \<Rightarrow> scan_patterns c fs directory rest acc'))"

text \<open>
  \<^verbatim>\<open>WindowsCleaner._scan_directory\<close>. The test \<^verbatim>\<open>directory.exists()\<close> stands before
  the \<^verbatim>\<open>try\<close>, so what it raises leaves the function. Inside the \<^verbatim>\<open>try\<close>,
  \<^verbatim>\<open>if patterns\<close> is false for \<^verbatim>\<open>None\<close> and for the empty list; both handlers
  (\<^verbatim>\<open>except PermissionError\<close>, \<^verbatim>\<open>except Exception\<close>) log and go on to the
  \<^verbatim>\<open>return\<close>.
\<close>

definition scan_directory_try ::
  "cleaner \<Rightarrow> filesystem \<Rightarrow> path \<Rightarrow> string list option \<Rightarrow> (exc + unit) \<times> scan_result" where
  "scan_directory_try c fs directory patterns =
     (if patterns \<noteq> None \<and> patterns \<noteq> Some [] then
        scan_patterns c fs directory (the patterns) ([], 0)
      else
        (case rglob fs directory ''*'' of
           Inl e \<Rightarrow> (Inl e, ([], 0))
         | Inr found \<Rightarrow> scan_files c fs found ([], 0)))"

definition scan_directory ::
  "cleaner \<Rightarrow> filesystem \<Rightarrow> path \<Rightarrow> string list option \<Rightarrow> exc + scan_result" where
  "scan_directory c fs directory patterns =
     (case exists fs directory of
        Inl e \<Rightarrow> Inl e
      | Inr False \<Rightarrow> Inr ([], 0)
      | Inr True \<Rightarrow> Inr (snd (scan_directory_try c fs directory patterns)))"

text \<open>
  The loops \<^verbatim>\<open>for location in ...: f, s = self._scan_directory(location, ...)\<close> of
  the categories that scan several roots.
\<close>

fun scan_locations ::
  "cleaner \<Rightarrow> filesystem \<Rightarrow> path list \<Rightarrow> string list option \<Rightarrow> scan_result
     \<Rightarrow> exc + scan_result" where
  "scan_locations c fs [] patterns acc = Inr acc"
| "scan_locations c fs (location # rest) patterns (files, total_size) =
     (case scan_directory c fs location patterns of
        Inl e \<Rightarrow> Inl e
      | Inr (f, s) \<Rightarrow> scan_locations c fs rest patterns (files @ f, total_size + s))"

definition scan_temp_user :: "cleaner \<Rightarrow> filesystem \<Rightarrow> exc + scan_result" where
  "scan_temp_user c fs = scan_directory c fs (temp_dir c) None"

definition scan_temp_windows :: "cleaner \<Rightarrow> filesystem \<Rightarrow> exc + scan_result" where
  "scan_temp_windows c fs = scan_directory c fs (Path ''C:/Windows/Temp'') None"

definition scan_prefetch :: "cleaner \<Rightarrow> filesystem \<Rightarrow> exc + scan_result" where
  "scan_prefetch c fs = scan_directory c fs (Path ''C:/Windows/Prefetch'') (Some [''*.pf''])"

fun scan_profiles ::
  "cleaner \<Rightarrow> filesystem \<Rightarrow> path list \<Rightarrow> scan_result \<Rightarrow> exc + scan_result" where
  "scan_profiles c fs [] acc = Inr acc"
| "scan_profiles c fs (profile # rest) (files, total_size) =
     (case is_dir fs profile of
        Inl e \<Rightarrow> Inl e
      | Inr False \<Rightarrow> scan_profiles c fs rest (files, total_size)
      | Inr True \<Rightarrow>
          (case scan_directory c fs (joinpath profile ''cache2'') None of
             Inl e \<Rightarrow> Inl e
           | Inr (f, s) \<Rightarrow> scan_profiles c fs rest (files @ f, total_size + s)))"

definition scan_browser_cache :: "cleaner \<Rightarrow> filesystem \<Rightarrow> exc + scan_result" where
  "scan_browser_cache c fs =
     (let chrome_cache = joinpath (local_app_data c) ''Google/Chrome/User Data/Default/Cache'';
          chrome_code_cache =
            joinpath (local_app_data c) ''Google/Chrome/User Data/Default/Code Cache'';
          edge_cache = joinpath (local_app_data c) ''Microsoft/Edge/User Data/Default/Cache'';
          edge_code_cache =
            joinpath (local_app_data c) ''Microsoft/Edge/User Data/Default/Code Cache'';
          firefox_profiles = joinpath (local_app_data c) ''Mozilla/Firefox/Profiles'';
          cache_dirs = [chrome_cache, chrome_code_cache, edge_cache, edge_code_cache]
      in case scan_locations c fs cache_dirs None ([], 0) of
           Inl e \<Rightarrow> Inl e
         | Inr acc \<Rightarrow>
             (case exists fs firefox_profiles of
                Inl e \<Rightarrow> Inl e
              | Inr False \<Rightarrow> Inr acc
              | Inr True \<Rightarrow>
                  (case iterdir fs firefox_profiles of
                     Inl e \<Rightarrow> Inl e
                   | Inr profiles \<Rightarrow> scan_profiles c fs profiles acc)))"

text \<open>
  \<^verbatim>\<open>_scan_windows_cache\<close> has no \<^verbatim>\<open>is_file\<close> test and no \<^verbatim>\<open>try\<close>: every name
  the glob yields that passes the safety filter is listed.
\<close>

fun scan_thumbnails ::
  "cleaner \<Rightarrow> filesystem \<Rightarrow> path list \<Rightarrow> scan_result \<Rightarrow> exc + scan_result" where
  "scan_thumbnails c fs [] acc = Inr acc"
| "scan_thumbnails c fs (file_path # rest) (files, total_size) =
     (if is_safe_to_delete c file_path then
        (case get_file_size fs file_path of
           Inl e \<Rightarrow> Inl e
         | Inr size' \<Rightarrow>
             scan_thumbnails c fs rest (files @ [str file_path], total_size + size'))
      else scan_thumbnails c fs rest (files, total_size))"

definition scan_windows_cache :: "cleaner \<Rightarrow> filesystem \<Rightarrow> exc + scan_result" where
  "scan_windows_cache c fs =
     (let thumbnail_cache = joinpath (local_app_data c) ''Microsoft/Windows/Explorer'';
          icon_cache = joinpath (local_app_data c) ''IconCache.db''
      in case glob fs thumbnail_cache ''thumbcache_*.db'' of
           Inl e \<Rightarrow> Inl e
         | Inr found \<Rightarrow>
             (case scan_thumbnails c fs found ([], 0) of
                Inl e \<Rightarrow> Inl e
              | Inr (files, total_size) \<Rightarrow>
                  (case exists fs icon_cache of
                     Inl e \<Rightarrow> Inl e
                   | Inr b \<Rightarrow>
                       if b \<and> is_safe_to_delete c icon_cache then
                         (case get_file_size fs icon_cache of
                            Inl e \<Rightarrow> Inl e
                          | Inr size' \<Rightarrow> Inr (files @ [str icon_cache], total_size + size'))
                       else Inr (files, total_size))))"

definition scan_recent_files :: "cleaner \<Rightarrow> filesystem \<Rightarrow> exc + scan_result" where
  "scan_recent_files c fs =
     scan_directory c fs (joinpath (app_data c) ''Microsoft/Windows/Recent'') (Some [''*.lnk''])"

definition scan_log_files :: "cleaner \<Rightarrow> filesystem \<Rightarrow> exc + scan_result" where
  "scan_log_files c fs =
     scan_locations c fs [temp_dir c, local_app_data c, Path ''C:/Windows/Logs'']
       (Some [''*.log'']) ([], 0)"

definition scan_old_files :: "cleaner \<Rightarrow> filesystem \<Rightarrow> exc + scan_result" where
  "scan_old_files c fs =
     scan_locations c fs [temp_dir c, user_home c, local_app_data c]
       (Some [''*.old'', ''*.bak'', ''*.tmp'', ''*.temp'', ''~*'']) ([], 0)"

text \<open>
  The keys of the table \<^verbatim>\<open>get_categories\<close> returns (the names, icons and
  descriptions are display text), and \<^verbatim>\<open>scan_category\<close> with its table of methods.
\<close>

definition get_categories_keys :: "string list" where
  "get_categories_keys =
     [''temp_user'', ''temp_windows'', ''prefetch'', ''browser_cache'', ''windows_cache'',
      ''recent_files'', ''log_files'', ''old_files'']"

definition scan_methods :: "(string \<times> (cleaner \<Rightarrow> filesystem \<Rightarrow> exc + scan_result)) list" where
  "scan_methods =
     [(''temp_user'', scan_temp_user),
      (''temp_windows'', scan_temp_windows),
      (''prefetch'', scan_prefetch),
      (''browser_cache'', scan_browser_cache),
      (''windows_cache'', scan_windows_cache),
      (''recent_files'', scan_recent_files),
      (''log_files'', scan_log_files),
      (''old_files'', scan_old_files)]"

definition scan_category :: "cleaner \<Rightarrow> filesystem \<Rightarrow> string \<Rightarrow> exc + scan_result" where
  "scan_category c fs category =
     (case map_of scan_methods category of
        Some method \<Rightarrow> method c fs
      | None \<Rightarrow> Inr ([], 0))"


section \<open>Cleaning\<close>

text \<open>
  The variables of \<^verbatim>\<open>clean_files\<close>, with the file system the removals act on.
\<close>

record clean_state =
  fs_of :: filesystem
  removed :: int
  size_freed :: int
  errors :: int

text \<open>
  The body of the \<^verbatim>\<open>try\<close> inside the loop, for one list entry: it ends normally
  (also by \<^verbatim>\<open>continue\<close>) or with an exception, and in both cases the variables are
  what they were at that point.
\<close>

definition clean_try :: "cleaner \<Rightarrow> clean_state \<Rightarrow> string \<Rightarrow> (exc + unit) \<times> clean_state" where
  "clean_try c st file_path =
     (let p = Path file_path in
      case exists (fs_of st) p of
        Inl e \<Rightarrow> (Inl e, st)
      | Inr False \<Rightarrow> (Inr (), st)
      | Inr True \<Rightarrow>
          if \<not> is_safe_to_delete c p then (Inr (), st\<lparr>errors := errors st + 1\<rparr>)
          else
            (case get_file_size (fs_of st) p of
               Inl e \<Rightarrow> (Inl e, st)
             | Inr size' \<Rightarrow>
                 (case is_file (fs_of st) p of
                    Inl e \<Rightarrow> (Inl e, st)
                  | Inr b \<Rightarrow>
                      (case (if b then safe_remove_file (fs_of st) p
                             else safe_remove_dir (fs_of st) p) of
                         (Inl e, fs') \<Rightarrow> (Inl e, st\<lparr>fs_of := fs'\<rparr>)
                       | (Inr success, fs') \<Rightarrow>
                           if success
                           then (Inr (), st\<lparr>fs_of := fs', removed := removed st + 1,
                                            size_freed := size_freed st + size'\<rparr>)
                           else (Inr (), st\<lparr>fs_of := fs', errors := errors st + 1\<rparr>)))))"

text \<open>
  One iteration: the \<^verbatim>\<open>try\<close> with its handler \<^verbatim>\<open>except Exception\<close>, which counts
  an error. The loop would stop at an exception that leaves an iteration.
\<close>

definition clean_iteration ::
  "cleaner \<Rightarrow> clean_state \<Rightarrow> string \<Rightarrow> (exc + unit) \<times> clean_state" where
  "clean_iteration c st file_path =
     (case clean_try c st file_path of
        (Inl e, st') \<Rightarrow> (Inr (), st'\<lparr>errors := errors st' + 1\<rparr>)
      | (Inr u, st') \<Rightarrow> (Inr u, st'))"

fun clean_loop :: "cleaner \<Rightarrow> clean_state \<Rightarrow> string list \<Rightarrow> (exc + unit) \<times> clean_state" where
  "clean_loop c st [] = (Inr (), st)"
| "clean_loop c st (file_path # rest) =
     (case clean_iteration c st file_path of
        (Inl e, st') \<Rightarrow> (Inl e, st')
      | (Inr _, st') \<Rightarrow> clean_loop c st' rest)"

text \<open>
  \<^verbatim>\<open>WindowsCleaner.clean_files\<close>: the three counters start at 0; the result is the
  counters (removed, size freed, errors), and the file system the call leaves.
\<close>

definition start :: "filesystem \<Rightarrow> clean_state" where
  "start fs = \<lparr>fs_of = fs, removed = 0, size_freed = 0, errors = 0\<rparr>"

definition clean_files ::
  "cleaner \<Rightarrow> filesystem \<Rightarrow> string list \<Rightarrow> exc + ((int \<times> int \<times> int) \<times> filesystem)" where
  "clean_files c fs files =
     (case clean_loop c (start fs) files of
        (Inl e, st) \<Rightarrow> Inl e
      | (Inr _, st) \<Rightarrow> Inr ((removed st, size_freed st, errors st), fs_of st))"


section \<open>Plain paths\<close>

text \<open>
  The paths of a local Windows file system as pathlib writes them: no drive or a drive
  letter with its colon, no root or the root separator, and components that are not
  empty, are not \<^verbatim>\<open>.\<close>, hold no separator and do not look like a drive. For these
  paths \<^verbatim>\<open>Path(str(p))\<close> is \<open>p\<close> again. A file system and a cleaner are plain
  when their names and their four directories are.
\<close>

definition drive_like :: "string \<Rightarrow> bool" where
  "drive_like x \<longleftrightarrow> take 1 (drop 1 x) = '':'' \<and> x \<noteq> [] \<and> hd x \<in> drive_letters"

definition plain_component :: "string \<Rightarrow> bool" where
  "plain_component x \<longleftrightarrow>
     x \<noteq> [] \<and> x \<noteq> ''.'' \<and> sep \<notin> set x \<and> altsep \<notin> set x \<and> \<not> drive_like x"

definition plain_path :: "path \<Rightarrow> bool" where
  "plain_path p \<longleftrightarrow>
     (case drv p of
        [] \<Rightarrow> True
      | [l, colon] \<Rightarrow> l \<in> drive_letters \<and> colon = CHR '':''
      | _ \<Rightarrow> False)
     \<and> (root p = [] \<or> root p = [sep])
     \<and> list_all plain_component (parts p)"

definition plain_fs :: "filesystem \<Rightarrow> bool" where
  "plain_fs fs \<longleftrightarrow> list_all (\<lambda>(k, n). plain_path k) (entries fs)"

definition plain_cleaner :: "cleaner \<Rightarrow> bool" where
  "plain_cleaner c \<longleftrightarrow>
     plain_path (user_home c) \<and> plain_path (temp_dir c) \<and> plain_path (local_app_data c)
     \<and> plain_path (app_data c)"


section \<open>What a scan has collected\<close>

text \<open>
  The property every scan keeps of its two variables: the names are the \<^verbatim>\<open>str\<close> of
  paths that passed the safety filter, and the total is the sum of what
  \<^verbatim>\<open>get_file_size\<close> returns for these paths, one summand for each entry of the list.
  It is stated for the paths of a class \<open>W\<close> that the scans do not leave: what the
  globs and \<^verbatim>\<open>iterdir\<close> yield from a directory of the class is in the class, and so
  are the directories the categories start from.
\<close>

definition collected :: "(path \<Rightarrow> bool) \<Rightarrow> cleaner \<Rightarrow> filesystem \<Rightarrow> scan_result \<Rightarrow> bool" where
  "collected W c fs acc \<longleftrightarrow>
     (\<exists>ps sizes. fst acc = map str ps \<and> (\<forall>p \<in> set ps. W p \<and> is_safe_to_delete c p)
        \<and> map (get_file_size fs) ps = map Inr sizes \<and> (\<forall>n \<in> set sizes. 0 \<le> n)
        \<and> snd acc = sum_list sizes)"

definition joined_names :: "string list" where
  "joined_names =
     [''Google/Chrome/User Data/Default/Cache'', ''Google/Chrome/User Data/Default/Code Cache'',
      ''Microsoft/Edge/User Data/Default/Cache'', ''Microsoft/Edge/User Data/Default/Code Cache'',
      ''Mozilla/Firefox/Profiles'', ''cache2'', ''Microsoft/Windows/Explorer'', ''IconCache.db'',
      ''Microsoft/Windows/Recent'']"

definition fixed_roots :: "string list" where
  "fixed_roots = [''C:/Windows/Temp'', ''C:/Windows/Prefetch'', ''C:/Windows/Logs'']"

definition closed_under_scan :: "(path \<Rightarrow> bool) \<Rightarrow> cleaner \<Rightarrow> filesystem \<Rightarrow> bool" where
  "closed_under_scan W c fs \<longleftrightarrow>
     (\<forall>d pattern found. W d \<longrightarrow> rglob fs d pattern = Inr found \<longrightarrow> (\<forall>p \<in> set found. W p))
     \<and> (\<forall>d pattern found. W d \<longrightarrow> glob fs d pattern = Inr found \<longrightarrow> (\<forall>p \<in> set found. W p))
     \<and> (\<forall>d found. W d \<longrightarrow> iterdir fs d = Inr found \<longrightarrow> (\<forall>p \<in> set found. W p))
     \<and> (\<forall>p s. W p \<longrightarrow> s \<in> set joined_names \<longrightarrow> W (joinpath p s))
     \<and> (\<forall>s \<in> set fixed_roots. W (Path s))
     \<and> W (user_home c) \<and> W (temp_dir c) \<and> W (local_app_data c) \<and> W (app_data c)"


section \<open>Auxiliary notions for the cleaning loop\<close>

text \<open>What a removal leaves: one more call in the log, and no new or changed entry.\<close>

definition removal_step :: "filesystem \<Rightarrow> path \<Rightarrow> filesystem \<Rightarrow> bool" where
  "removal_step fs p fs' \<longleftrightarrow>
     removal_calls fs' = removal_calls fs @ [p]
     \<and> (\<forall>q n. lookup fs' q = Some n \<longrightarrow> lookup fs q = Some n)"

text \<open>
  An entry of the list is settled in a file system when an iteration on it removes
  nothing: the name is absent, or its \<^verbatim>\<open>stat\<close> is refused, or the safety filter
  rejects it. Such an iteration counts an error unless the name is absent.
\<close>

definition settled :: "cleaner \<Rightarrow> filesystem \<Rightarrow> string \<Rightarrow> bool" where
  "settled c fs f \<longleftrightarrow>
     (case lookup fs (Path f) of
        None \<Rightarrow> True
      | Some n \<Rightarrow> stat_denied n \<or> \<not> is_safe_to_delete c (Path f))"

definition counted :: "filesystem \<Rightarrow> string \<Rightarrow> int" where
  "counted fs f = (case lookup fs (Path f) of None \<Rightarrow> 0 | Some n \<Rightarrow> 1)"


section \<open>Example configurations\<close>

text \<open>
  A Windows session with its three variables set, and nodes on which the system
  refuses nothing.
\<close>

definition example_env :: environment where
  "example_env =
     \<lparr>home = Path ''C:/Users/david'',
      environ = [(''TEMP'', ''C:/Temp''),
                 (''LOCALAPPDATA'', ''C:/Users/david/AppData/Local''),
                 (''APPDATA'', ''C:/Users/david/AppData/Roaming'')]\<rparr>"

definition plain_file :: "nat \<Rightarrow> node" where
  "plain_file n =
     \<lparr>kind = Regular n, stat_denied = False, remove_denied = False, list_denied = False\<rparr>"

definition plain_dir :: node where
  "plain_dir =
     \<lparr>kind = Directory, stat_denied = False, remove_denied = False, list_denied = False\<rparr>"

text \<open>The temp directory with one 2048-byte file and one 100-byte \<^verbatim>\<open>.exe\<close> file.\<close>

definition temp_scenario_fs :: filesystem where
  "temp_scenario_fs =
     \<lparr>entries = [(Path ''C:/Temp'', plain_dir),
                 (Path ''C:/Temp/data.bin'', plain_file 2048),
                 (Path ''C:/Temp/setup.exe'', plain_file 100)],
      removal_calls = []\<rparr>"


text \<open>
  The temp directory with two files left of three (\<^verbatim>\<open>b.tmp\<close> is gone), and with
  two backup files, one of which matches two patterns of the old-files category.
\<close>

definition three_files_fs :: filesystem where
  "three_files_fs =
     \<lparr>entries = [(Path ''C:/Temp'', plain_dir),
                 (Path ''C:/Temp/a.tmp'', plain_file 10),
                 (Path ''C:/Temp/c.tmp'', plain_file 30)],
      removal_calls = []\<rparr>"

definition old_files_fs :: filesystem where
  "old_files_fs =
     \<lparr>entries = [(Path ''C:/Temp'', plain_dir),
                 (Path ''C:/Temp/a.tmp'', plain_file 10),
                 (Path ''C:/Temp/~b.tmp'', plain_file 5)],
      removal_calls = []\<rparr>"

text \<open>
  A session where \<^verbatim>\<open>TEMP\<close>, \<^verbatim>\<open>LOCALAPPDATA\<close> and \<^verbatim>\<open>APPDATA\<close> are not set,
  and a current directory (the path \<^verbatim>\<open>.\<close>) that holds a file and a subdirectory.
\<close>

definition unset_env :: environment where
  "unset_env = \<lparr>home = Path ''C:/Users/david'', environ = []\<rparr>"

definition cwd_fs :: filesystem where
  "cwd_fs =
     \<lparr>entries = [(Path '''', plain_dir),
                 (Path ''notes.txt'', plain_file 7),
                 (Path ''sub'', plain_dir),
                 (Path ''sub/x.tmp'', plain_file 3)],
      removal_calls = []\<rparr>"

text \<open>
  The thumbnail cache with two entries; the system refuses \<^verbatim>\<open>stat\<close> on the first.
\<close>

definition thumb_fs :: filesystem where
  "thumb_fs =
     \<lparr>entries =
        [(Path ''C:/Users/david/AppData/Local/Microsoft/Windows/Explorer'', plain_dir),
         (Path ''C:/Users/david/AppData/Local/Microsoft/Windows/Explorer/thumbcache_32.db'',
          \<lparr>kind = Regular 50, stat_denied = True, remove_denied = False, list_denied = False\<rparr>),
         (Path ''C:/Users/david/AppData/Local/Microsoft/Windows/Explorer/thumbcache_64.db'',
          plain_file 9)],
      removal_calls = []\<rparr>"

text \<open>
  A temp directory with a file on which the system refuses \<^verbatim>\<open>stat\<close>, and the
  temp directory of the scenario after \<^verbatim>\<open>data.bin\<close> has been removed from it.
\<close>

definition locked_fs :: filesystem where
  "locked_fs =
     \<lparr>entries = [(Path ''C:/Temp'', plain_dir),
                 (Path ''C:/Temp/locked.tmp'',
                  \<lparr>kind = Regular 4, stat_denied = True, remove_denied = False,
                     list_denied = False\<rparr>)],
      removal_calls = []\<rparr>"

definition after_data_bin :: filesystem where
  "after_data_bin =
     \<lparr>entries = [(Path ''C:/Temp'', plain_dir), (Path ''C:/Temp/setup.exe'', plain_file 100)],
      removal_calls = [Path ''C:/Temp/data.bin'']\<rparr>"


section \<open>Properties of the safety filter\<close>

lemma path_eq_refl: "path_eq p p"
  by (simp add: path_eq_def)

lemma path_eq_sym: "path_eq p q \<Longrightarrow> path_eq q p"
  by (simp add: path_eq_def)

lemma path_eq_trans: "path_eq p q \<Longrightarrow> path_eq q r \<Longrightarrow> path_eq p r"
  by (simp add: path_eq_def)

lemma set_parents: "set (parents p) = (\<lambda>k. p\<lparr>parts := take k (parts p)\<rparr>) ` {..<length (parts p)}"
  by (auto simp: parents_def)

lemma nested_under_parents: "nested_under p d \<longleftrightarrow> list_ex (path_eq d) (parents p)"
proof
  assume n: "nested_under p d"
  let ?k = "length (parts d)"
  from n have "?k < length (parts p)"
    by (simp add: nested_under_def)
  then have "p\<lparr>parts := take ?k (parts p)\<rparr> \<in> set (parents p)"
    by (auto simp: set_parents)
  moreover from n have "path_eq d (p\<lparr>parts := take ?k (parts p)\<rparr>)"
    by (simp add: nested_under_def path_eq_def casefold_def take_map)
  ultimately show "list_ex (path_eq d) (parents p)"
    unfolding list_ex_iff by blast
next
  assume "list_ex (path_eq d) (parents p)"
  then obtain k where k: "k < length (parts p)"
    and e: "path_eq d (p\<lparr>parts := take k (parts p)\<rparr>)"
    by (auto simp: list_ex_iff set_parents)
  from e have m: "map lower (parts d) = take k (map lower (parts p))"
    and dr: "lower (drv d) = lower (drv p)" "lower (root d) = lower (root p)"
    by (simp_all add: path_eq_def casefold_def take_map)
  from m k have "length (parts d) = k"
    by (metis length_map length_take min.absorb2 less_imp_le)
  with m k dr show "nested_under p d"
    by (simp add: nested_under_def)
qed

text \<open>The round trip of \<^verbatim>\<open>str\<close> and \<^verbatim>\<open>Path\<close> on plain paths.\<close>

lemma sep_facts: "sep \<noteq> CHR '':''" "sep \<noteq> altsep" "sep \<notin> drive_letters"
  "altsep \<notin> drive_letters" "altsep \<noteq> CHR '':''" "sep \<noteq> CHR ''.''" "sep \<noteq> CHR ''?''"
  by (simp_all add: sep_def altsep_def drive_letters_def)

lemma split_no_sep: "ch \<notin> set x \<Longrightarrow> split ch x = [x]"
  by (induction x) auto

lemma split_append: "ch \<notin> set x \<Longrightarrow> split ch (x @ ch # rest) = x # split ch rest"
  by (induction x) auto

lemma split_join:
  "xs \<noteq> [] \<Longrightarrow> \<forall>x \<in> set xs. ch \<notin> set x \<Longrightarrow> split ch (join ch xs) = xs"
  by (induction ch xs rule: join.induct) (auto simp: split_no_sep split_append)

lemma join_Nil: "\<forall>x \<in> set xs. x \<noteq> [] \<Longrightarrow> join ch xs = [] \<Longrightarrow> xs = []"
  by (induction ch xs rule: join.induct) auto

lemma set_join: "set (join ch xs) \<subseteq> insert ch (\<Union>(set ` set xs))"
  by (induction ch xs rule: join.induct) auto

lemma join_Cons: "join ch (x # xs) = x @ (if xs = [] then [] else ch # join ch xs)"
  by (cases xs) simp_all

lemma splitroot_plain:
  assumes d: "d = [] \<or> (\<exists>l. l \<in> drive_letters \<and> d = [l, CHR '':''])"
    and r: "r = [] \<or> r = [sep]"
    and b: "body = [] \<or> hd body \<noteq> sep"
    and nd: "d = [] \<Longrightarrow> r = [] \<Longrightarrow>
               \<not> (take 1 (drop 1 body) = '':'' \<and> body \<noteq> [] \<and> hd body \<in> drive_letters)"
  shows "splitroot (d @ r @ body) = (d, r, body)"
proof -
  have dw: "dropWhile (\<lambda>ch. ch = sep) body = body"
    using b by (cases body) auto
  have t: "take 1 body \<noteq> [sep]"
    using b by (cases body) auto
  from d show ?thesis
  proof
    assume d0: "d = []"
    from r show ?thesis
    proof
      assume r0: "r = []"
      show ?thesis
      proof (cases body)
        case Nil
        with d0 r0 show ?thesis
          by (simp add: splitroot_def)
      next
        case (Cons x xs)
        with b have x: "x \<noteq> sep" by simp
        from nd [OF d0 r0] Cons have "\<not> (take 1 xs = '':'' \<and> x \<in> drive_letters)"
          by simp
        with d0 r0 Cons x show ?thesis
          by (auto simp: splitroot_def Let_def)
      qed
    next
      assume r1: "r = [sep]"
      with d0 t dw show ?thesis
        by (auto simp: splitroot_def Let_def sep_facts)
    qed
  next
    assume "\<exists>l. l \<in> drive_letters \<and> d = [l, CHR '':'']"
    then obtain l where l: "l \<in> drive_letters" "d = [l, CHR '':'']" by blast
    from l(1) have ls: "l \<noteq> sep" using sep_facts by auto
    from r show ?thesis
    proof
      assume "r = []"
      with l ls t show ?thesis
        by (auto simp: splitroot_def Let_def sep_facts)
    next
      assume "r = [sep]"
      with l ls dw show ?thesis
        by (auto simp: splitroot_def Let_def sep_facts)
    qed
  qed
qed

lemma plain_path_drv:
  "plain_path p \<Longrightarrow> drv p = [] \<or> (\<exists>l. l \<in> drive_letters \<and> drv p = [l, CHR '':''])"
  by (auto simp: plain_path_def split: list.splits)

lemma Path_dot: "Path ''.'' = \<lparr>drv = [], root = [], parts = []\<rparr>"
  by code_simp

lemma Path_str: "plain_path p \<Longrightarrow> Path (str p) = p"
proof -
  assume pl: "plain_path p"
  let ?body = "join sep (parts p)"
  let ?s = "drv p @ root p @ ?body"
  from pl have d: "drv p = [] \<or> (\<exists>l. l \<in> drive_letters \<and> drv p = [l, CHR '':''])"
    by (rule plain_path_drv)
  from pl have r: "root p = [] \<or> root p = [sep]"
    by (simp add: plain_path_def)
  from pl have comps: "\<forall>x \<in> set (parts p). plain_component x"
    by (simp add: plain_path_def list_all_iff)
  then have ne: "\<forall>x \<in> set (parts p). x \<noteq> []" and nosep: "\<forall>x \<in> set (parts p). sep \<notin> set x"
    and noalt: "\<forall>x \<in> set (parts p). altsep \<notin> set x"
    and nodot: "\<forall>x \<in> set (parts p). x \<noteq> ''.''"
    by (auto simp: plain_component_def)
  have b: "?body = [] \<or> hd ?body \<noteq> sep"
  proof (cases "parts p")
    case Nil
    then show ?thesis by simp
  next
    case (Cons x xs)
    with ne nosep have "x \<noteq> []" "sep \<notin> set x" by auto
    then have "hd x \<noteq> sep" by (cases x) auto
    with Cons \<open>x \<noteq> []\<close> show ?thesis by (simp add: join_Cons)
  qed
  have nd: "\<not> (take 1 (drop 1 ?body) = '':'' \<and> ?body \<noteq> [] \<and> hd ?body \<in> drive_letters)"
  proof (cases "parts p")
    case Nil
    then show ?thesis by simp
  next
    case (Cons x xs)
    with comps have x: "x \<noteq> []" "\<not> drive_like x" by (auto simp: plain_component_def)
    from x(1) obtain a x' where xa: "x = a # x'" by (cases x) auto
    show ?thesis
    proof (cases x')
      case Nil
      with Cons xa show ?thesis
        by (auto simp: join_Cons sep_facts)
    next
      case (Cons b x'')
      with \<open>parts p = x # xs\<close> xa x(2) show ?thesis
        by (auto simp: join_Cons drive_like_def)
    qed
  qed
  have alt: "altsep \<notin> set ?s"
  proof -
    from d have "altsep \<notin> set (drv p)" using sep_facts by auto
    moreover from r have "altsep \<notin> set (root p)" using sep_facts by auto
    moreover from noalt set_join [of sep "parts p"] have "altsep \<notin> set ?body"
      using sep_facts by auto
    ultimately show ?thesis by simp
  qed
  then have m: "map (\<lambda>ch. if ch = altsep then sep else ch) ?s = ?s"
    by (intro map_idI) auto
  have sr: "splitroot ?s = (drv p, root p, ?body)"
    using d r b nd by (rule splitroot_plain)
  have f: "filter (\<lambda>x. x \<noteq> [] \<and> x \<noteq> ''.'') (split sep ?body) = parts p"
  proof (cases "parts p = []")
    case True
    then show ?thesis by simp
  next
    case False
    from False nosep have "split sep ?body = parts p" by (rule split_join)
    with ne nodot show ?thesis by (simp add: filter_id_conv)
  qed
  show ?thesis
  proof (cases "?s = []")
    case True
    then have "drv p = []" "root p = []" "?body = []" by simp_all
    with ne have "parts p = []" by (auto dest: join_Nil)
    with True \<open>drv p = []\<close> \<open>root p = []\<close> show ?thesis
      by (simp add: str_def Path_dot)
  next
    case False
    then have "str p = ?s" by (simp add: str_def Let_def)
    with m sr f show ?thesis
      by (simp add: Path_def)
  qed
qed


section \<open>Properties of scanning\<close>

lemma scan_methods_keys: "map fst scan_methods = get_categories_keys"
  by (simp add: scan_methods_def get_categories_keys_def)

lemma stat_error: "stat fs p = Inl e \<Longrightarrow> is_OSError e"
  by (auto simp: stat_def is_OSError_def split: option.splits if_splits)

lemma stat_test_error: "stat_test t fs p = Inl e \<Longrightarrow> is_OSError e"
  by (auto simp: stat_test_def is_OSError_def split: sum.splits if_splits)

lemma rglob_error: "rglob fs d pattern = Inl e \<Longrightarrow> is_OSError e"
  by (auto simp: rglob_def is_dir_def split: sum.splits bool.splits dest: stat_test_error)

lemma st_size_nonneg: "0 \<le> st_size n"
  by (simp add: st_size_def split: kind.splits)

lemma sum_sizes_error: "sum_sizes fs ps = Inl e \<Longrightarrow> is_OSError e"
  by (induction ps)
     (auto simp: is_file_def split: sum.splits bool.splits dest: stat_test_error stat_error)

lemma sum_sizes_nonneg: "sum_sizes fs ps = Inr s \<Longrightarrow> 0 \<le> s"
proof (induction ps arbitrary: s)
  case Nil
  then show ?case by simp
next
  case (Cons f rest)
  then show ?case
    using st_size_nonneg by (fastforce split: sum.splits bool.splits)
qed

lemma get_file_size_try_error: "get_file_size_try fs p = Inl e \<Longrightarrow> is_OSError e"
  by (auto simp: get_file_size_try_def is_file_def is_dir_def
           split: sum.splits bool.splits
           dest: stat_test_error stat_error rglob_error sum_sizes_error)

lemma get_file_size_try_nonneg: "get_file_size_try fs p = Inr (Some s) \<Longrightarrow> 0 \<le> s"
  by (auto simp: get_file_size_try_def st_size_nonneg
           split: sum.splits bool.splits dest: sum_sizes_nonneg)

lemma get_file_size_total: "\<exists>n. get_file_size fs p = Inr n \<and> 0 \<le> n"
proof (cases "get_file_size_try fs p")
  case (Inl e)
  then show ?thesis
    by (simp add: get_file_size_def get_file_size_try_error)
next
  case (Inr r)
  then show ?thesis
    by (cases r) (simp_all add: get_file_size_def get_file_size_try_nonneg)
qed

lemma list_all_drop: "list_all P xs \<Longrightarrow> list_all P (drop n xs)"
  by (auto simp: list_all_iff dest: in_set_dropD)

lemma rebase_plain: "plain_path d \<Longrightarrow> plain_path k \<Longrightarrow> plain_path (rebase d k)"
  by (simp add: plain_path_def rebase_def list_all_drop)

lemma children_keys: "p \<in> set (children fs d) \<Longrightarrow> p \<in> fst ` set (entries fs)"
  by (auto simp: children_def split: if_splits)

lemma plain_fs_key: "plain_fs fs \<Longrightarrow> p \<in> fst ` set (entries fs) \<Longrightarrow> plain_path p"
  by (auto simp: plain_fs_def list_all_iff)

lemma rglob_plain:
  assumes "plain_fs fs" and "plain_path d" and "rglob fs d pattern = Inr found"
  shows "\<forall>p \<in> set found. plain_path p"
proof
  fix p
  assume "p \<in> set found"
  with assms(3) obtain k dir where "p = rebase d k" and "k \<in> set (children fs dir)"
    by (auto simp: rglob_def split: sum.splits bool.splits)
  with assms(1,2) show "plain_path p"
    by (auto intro: rebase_plain plain_fs_key children_keys)
qed

lemma glob_plain:
  assumes "plain_fs fs" and "plain_path d" and "glob fs d pattern = Inr found"
  shows "\<forall>p \<in> set found. plain_path p"
proof
  fix p
  assume "p \<in> set found"
  with assms(3) obtain k where "p = rebase d k" and "k \<in> set (children fs d)"
    by (auto simp: glob_def split: sum.splits bool.splits)
  with assms(1,2) show "plain_path p"
    by (auto intro: rebase_plain plain_fs_key children_keys)
qed

lemma iterdir_plain:
  assumes "plain_fs fs" and "plain_path d" and "iterdir fs d = Inr found"
  shows "\<forall>p \<in> set found. plain_path p"
proof
  fix p
  assume "p \<in> set found"
  with assms(3) have "p \<in> rebase d ` fst ` set (entries fs)"
    by (force simp: iterdir_def split: option.splits if_splits)
  with assms(1,2) show "plain_path p"
    by (auto intro: rebase_plain plain_fs_key)
qed

lemma joined_names_plain:
  "list_all (\<lambda>s. plain_path (Path s) \<and> drv (Path s) = [] \<and> root (Path s) = []) joined_names"
  by code_simp

lemma joinpath_plain:
  assumes "plain_path p" and "s \<in> set joined_names"
  shows "plain_path (joinpath p s)"
proof -
  from assms(2) joined_names_plain
  have q: "plain_path (Path s)" "drv (Path s) = []" "root (Path s) = []"
    by (auto simp: list_all_iff)
  from q(2,3)
  have "joinpath p s = \<lparr>drv = drv p, root = root p, parts = parts p @ parts (Path s)\<rparr>"
    unfolding joinpath_def Let_def by simp
  moreover from assms(1) q(1)
  have "plain_path \<lparr>drv = drv p, root = root p, parts = parts p @ parts (Path s)\<rparr>"
    unfolding plain_path_def by simp
  ultimately show ?thesis by simp
qed

lemma fixed_roots_plain: "list_all (\<lambda>s. plain_path (Path s)) fixed_roots"
  by code_simp

lemma closed_plain:
  assumes "plain_fs fs" and "plain_cleaner c"
  shows "closed_under_scan plain_path c fs"
  unfolding closed_under_scan_def
proof (intro conjI)
  show "\<forall>d pattern found. plain_path d \<longrightarrow> rglob fs d pattern = Inr found
      \<longrightarrow> (\<forall>p \<in> set found. plain_path p)"
    using rglob_plain [OF assms(1)] by blast
  show "\<forall>d pattern found. plain_path d \<longrightarrow> glob fs d pattern = Inr found
      \<longrightarrow> (\<forall>p \<in> set found. plain_path p)"
    using glob_plain [OF assms(1)] by blast
  show "\<forall>d found. plain_path d \<longrightarrow> iterdir fs d = Inr found
      \<longrightarrow> (\<forall>p \<in> set found. plain_path p)"
    using iterdir_plain [OF assms(1)] by blast
  show "\<forall>p s. plain_path p \<longrightarrow> s \<in> set joined_names \<longrightarrow> plain_path (joinpath p s)"
    using joinpath_plain by blast
  show "\<forall>s \<in> set fixed_roots. plain_path (Path s)"
    using fixed_roots_plain unfolding list_all_iff by blast
  show "plain_path (user_home c)" "plain_path (temp_dir c)" "plain_path (local_app_data c)"
    "plain_path (app_data c)"
    using assms(2) unfolding plain_cleaner_def by blast+
qed

lemma closed_rglob:
  "closed_under_scan W c fs \<Longrightarrow> W d \<Longrightarrow> rglob fs d pattern = Inr found \<Longrightarrow> \<forall>p \<in> set found. W p"
  unfolding closed_under_scan_def by blast

lemma closed_glob:
  "closed_under_scan W c fs \<Longrightarrow> W d \<Longrightarrow> glob fs d pattern = Inr found \<Longrightarrow> \<forall>p \<in> set found. W p"
  unfolding closed_under_scan_def by blast

lemma closed_iterdir:
  "closed_under_scan W c fs \<Longrightarrow> W d \<Longrightarrow> iterdir fs d = Inr found \<Longrightarrow> \<forall>p \<in> set found. W p"
  unfolding closed_under_scan_def by blast

lemma closed_joinpath:
  "closed_under_scan W c fs \<Longrightarrow> W p \<Longrightarrow> s \<in> set joined_names \<Longrightarrow> W (joinpath p s)"
  unfolding closed_under_scan_def by blast

lemma closed_fixed: "closed_under_scan W c fs \<Longrightarrow> s \<in> set fixed_roots \<Longrightarrow> W (Path s)"
  unfolding closed_under_scan_def by blast

lemma closed_cleaner:
  "closed_under_scan W c fs \<Longrightarrow>
     W (user_home c) \<and> W (temp_dir c) \<and> W (local_app_data c) \<and> W (app_data c)"
  unfolding closed_under_scan_def by blast

lemma closed_trivial: "closed_under_scan (\<lambda>p. True) c fs"
  by (simp add: closed_under_scan_def)

lemma collected_empty: "collected W c fs ([], 0)"
  unfolding collected_def by (intro exI [of _ "[]"]) simp

lemma collected_snoc:
  assumes "collected W c fs (files, tot)" and "W p" and "is_safe_to_delete c p"
    and "get_file_size fs p = Inr n"
  shows "collected W c fs (files @ [str p], tot + n)"
proof -
  from assms(1) obtain ps sizes where h: "files = map str ps"
    "\<forall>p \<in> set ps. W p \<and> is_safe_to_delete c p" "map (get_file_size fs) ps = map Inr sizes"
    "\<forall>n \<in> set sizes. 0 \<le> n" "tot = sum_list sizes"
    by (auto simp: collected_def)
  from get_file_size_total [of fs p] assms(4) have "0 \<le> n" by auto
  with h assms(2,3,4) show ?thesis
    unfolding collected_def
    by (intro exI [of _ "ps @ [p]"] exI [of _ "sizes @ [n]"]) auto
qed

lemma collected_append:
  assumes "collected W c fs (f1, t1)" and "collected W c fs (f2, t2)"
  shows "collected W c fs (f1 @ f2, t1 + t2)"
proof -
  from assms(1) obtain ps sizes where h: "f1 = map str ps"
    "\<forall>p \<in> set ps. W p \<and> is_safe_to_delete c p" "map (get_file_size fs) ps = map Inr sizes"
    "\<forall>n \<in> set sizes. 0 \<le> n" "t1 = sum_list sizes"
    by (auto simp: collected_def)
  from assms(2) obtain qs sizes' where h': "f2 = map str qs"
    "\<forall>p \<in> set qs. W p \<and> is_safe_to_delete c p" "map (get_file_size fs) qs = map Inr sizes'"
    "\<forall>n \<in> set sizes'. 0 \<le> n" "t2 = sum_list sizes'"
    by (auto simp: collected_def)
  from h h' show ?thesis
    unfolding collected_def
    by (intro exI [of _ "ps @ qs"] exI [of _ "sizes @ sizes'"]) auto
qed

lemma scan_files_collected:
  "\<forall>p \<in> set ps. W p \<Longrightarrow> collected W c fs acc
     \<Longrightarrow> collected W c fs (snd (scan_files c fs ps acc))"
proof (induction ps arbitrary: acc)
  case Nil
  then show ?case by simp
next
  case (Cons p ps)
  obtain files tot where acc: "acc = (files, tot)" by (cases acc)
  from Cons.prems(1) have w: "W p" and ws: "\<forall>p \<in> set ps. W p" by simp_all
  show ?case
  proof (cases "is_file fs p")
    case (Inl e)
    with Cons.prems acc show ?thesis by simp
  next
    case (Inr b)
    show ?thesis
    proof (cases "b \<and> is_safe_to_delete c p")
      case True
      from get_file_size_total obtain n where n: "get_file_size fs p = Inr n" by blast
      from Cons.prems(2) acc True n w have "collected W c fs (files @ [str p], tot + n)"
        by (simp add: collected_snoc)
      from Cons.IH [OF ws this] acc Inr True n show ?thesis by simp
    next
      case False
      with Cons.IH [OF ws Cons.prems(2)] acc Inr show ?thesis by auto
    qed
  qed
qed

lemma scan_patterns_collected:
  assumes "closed_under_scan W c fs" and "W d"
  shows "collected W c fs acc \<Longrightarrow> collected W c fs (snd (scan_patterns c fs d pats acc))"
proof (induction pats arbitrary: acc)
  case Nil
  then show ?case by simp
next
  case (Cons pat pats)
  show ?case
  proof (cases "rglob fs d pat")
    case (Inl e)
    with Cons.prems show ?thesis by simp
  next
    case (Inr found)
    from assms Inr have "\<forall>p \<in> set found. W p"
      by (rule closed_rglob)
    from this Cons.prems have s: "collected W c fs (snd (scan_files c fs found acc))"
      by (rule scan_files_collected)
    obtain r acc' where r: "scan_files c fs found acc = (r, acc')"
      by (cases "scan_files c fs found acc")
    with s have "collected W c fs acc'" by simp
    with Cons.IH [of acc'] Inr r show ?thesis
      by (cases r) simp_all
  qed
qed

lemma scan_directory_collected:
  assumes "closed_under_scan W c fs" and "W d" and "scan_directory c fs d pats = Inr r"
  shows "collected W c fs r"
proof -
  have "collected W c fs (snd (scan_directory_try c fs d pats))"
  proof (cases "pats \<noteq> None \<and> pats \<noteq> Some []")
    case True
    then show ?thesis
      by (simp add: scan_directory_try_def scan_patterns_collected [OF assms(1,2)]
            collected_empty)
  next
    case False
    show ?thesis
    proof (cases "rglob fs d ''*''")
      case (Inl e)
      with False show ?thesis
        by (auto simp: scan_directory_try_def collected_empty)
    next
      case (Inr found)
      from assms(1,2) Inr have "\<forall>p \<in> set found. W p"
        by (rule closed_rglob)
      then have "collected W c fs (snd (scan_files c fs found ([], 0)))"
        by (rule scan_files_collected) (rule collected_empty)
      with False Inr show ?thesis
        by (auto simp: scan_directory_try_def)
    qed
  qed
  with assms(3) show ?thesis
    by (auto simp: scan_directory_def collected_empty split: sum.splits bool.splits)
qed

lemma scan_locations_collected:
  assumes "closed_under_scan W c fs"
  shows "\<forall>d \<in> set ds. W d \<Longrightarrow> collected W c fs acc
     \<Longrightarrow> scan_locations c fs ds pats acc = Inr r \<Longrightarrow> collected W c fs r"
proof (induction ds arbitrary: acc)
  case Nil
  then show ?case by simp
next
  case (Cons d ds)
  obtain files tot where acc: "acc = (files, tot)" by (cases acc)
  from Cons.prems(1) have w: "W d" and ws: "\<forall>d \<in> set ds. W d" by simp_all
  from Cons.prems(3) acc obtain f s where d: "scan_directory c fs d pats = Inr (f, s)"
    and rest: "scan_locations c fs ds pats (files @ f, tot + s) = Inr r"
    by (auto split: sum.splits)
  from assms w d have "collected W c fs (f, s)" by (rule scan_directory_collected)
  with Cons.prems(2) acc have "collected W c fs (files @ f, tot + s)"
    by (simp add: collected_append)
  from Cons.IH [OF ws this rest] show ?case .
qed

lemma scan_profiles_collected:
  assumes "closed_under_scan W c fs"
  shows "\<forall>p \<in> set ps. W p \<Longrightarrow> collected W c fs acc
     \<Longrightarrow> scan_profiles c fs ps acc = Inr r \<Longrightarrow> collected W c fs r"
proof (induction ps arbitrary: acc)
  case Nil
  then show ?case by simp
next
  case (Cons p ps)
  obtain files tot where acc: "acc = (files, tot)" by (cases acc)
  from Cons.prems(1) have w: "W p" and ws: "\<forall>p \<in> set ps. W p" by simp_all
  from Cons.prems(3) acc obtain b where b: "is_dir fs p = Inr b"
    by (auto split: sum.splits)
  show ?case
  proof (cases b)
    case False
    with Cons.IH [OF ws Cons.prems(2)] Cons.prems(3) acc b show ?thesis by simp
  next
    case True
    with Cons.prems(3) acc b obtain f s
      where d: "scan_directory c fs (joinpath p ''cache2'') None = Inr (f, s)"
        and rest: "scan_profiles c fs ps (files @ f, tot + s) = Inr r"
      by (auto split: sum.splits)
    from assms w have "W (joinpath p ''cache2'')"
      by (rule closed_joinpath) (simp add: joined_names_def)
    with assms have "collected W c fs (f, s)"
      using d by (rule scan_directory_collected)
    with Cons.prems(2) acc have "collected W c fs (files @ f, tot + s)"
      by (simp add: collected_append)
    from Cons.IH [OF ws this rest] show ?thesis .
  qed
qed

lemma scan_thumbnails_collected:
  "\<forall>p \<in> set ps. W p \<Longrightarrow> collected W c fs acc
     \<Longrightarrow> scan_thumbnails c fs ps acc = Inr r \<Longrightarrow> collected W c fs r"
proof (induction ps arbitrary: acc)
  case Nil
  then show ?case by simp
next
  case (Cons p ps)
  obtain files tot where acc: "acc = (files, tot)" by (cases acc)
  from Cons.prems(1) have w: "W p" and ws: "\<forall>p \<in> set ps. W p" by simp_all
  show ?case
  proof (cases "is_safe_to_delete c p")
    case True
    from get_file_size_total obtain n where n: "get_file_size fs p = Inr n" by blast
    from Cons.prems(2) acc True n w have "collected W c fs (files @ [str p], tot + n)"
      by (simp add: collected_snoc)
    moreover from Cons.prems(3) acc True n
    have "scan_thumbnails c fs ps (files @ [str p], tot + n) = Inr r" by simp
    ultimately show ?thesis by (rule Cons.IH [OF ws])
  next
    case False
    with Cons.IH [OF ws Cons.prems(2)] Cons.prems(3) acc show ?thesis by simp
  qed
qed

lemma scan_browser_cache_collected:
  assumes cl: "closed_under_scan W c fs" and "scan_browser_cache c fs = Inr r"
  shows "collected W c fs r"
proof -
  let ?dirs = "[joinpath (local_app_data c) ''Google/Chrome/User Data/Default/Cache'',
    joinpath (local_app_data c) ''Google/Chrome/User Data/Default/Code Cache'',
    joinpath (local_app_data c) ''Microsoft/Edge/User Data/Default/Cache'',
    joinpath (local_app_data c) ''Microsoft/Edge/User Data/Default/Code Cache'']"
  let ?ff = "joinpath (local_app_data c) ''Mozilla/Firefox/Profiles''"
  from cl have l: "W (local_app_data c)"
    by (simp add: closed_cleaner)
  have wd: "\<forall>d \<in> set ?dirs. W d"
    using closed_joinpath [OF cl l] by (simp add: joined_names_def)
  have wf: "W ?ff"
    using closed_joinpath [OF cl l] by (simp add: joined_names_def)
  from assms(2) obtain acc where a: "scan_locations c fs ?dirs None ([], 0) = Inr acc"
    unfolding scan_browser_cache_def Let_def
    by (auto split: sum.splits simp del: scan_locations.simps)
  from cl wd collected_empty a have acc: "collected W c fs acc"
    by (rule scan_locations_collected)
  from assms(2) a obtain b where b: "exists fs ?ff = Inr b"
    unfolding scan_browser_cache_def Let_def
    by (auto split: sum.splits simp del: scan_locations.simps)
  show ?thesis
  proof (cases b)
    case False
    with assms(2) a b acc show ?thesis
      unfolding scan_browser_cache_def Let_def by (simp del: scan_locations.simps)
  next
    case True
    with assms(2) a b obtain profiles where i: "iterdir fs ?ff = Inr profiles"
      and s: "scan_profiles c fs profiles acc = Inr r"
      unfolding scan_browser_cache_def Let_def
      by (auto split: sum.splits simp del: scan_locations.simps)
    from cl wf i have "\<forall>p \<in> set profiles. W p"
      by (rule closed_iterdir)
    from cl this acc s show ?thesis
      by (rule scan_profiles_collected)
  qed
qed

lemma scan_windows_cache_collected:
  assumes cl: "closed_under_scan W c fs" and "scan_windows_cache c fs = Inr r"
  shows "collected W c fs r"
proof -
  let ?tc = "joinpath (local_app_data c) ''Microsoft/Windows/Explorer''"
  let ?ic = "joinpath (local_app_data c) ''IconCache.db''"
  from cl have l: "W (local_app_data c)"
    by (simp add: closed_cleaner)
  have wt: "W ?tc" and wi: "W ?ic"
    using closed_joinpath [OF cl l] by (simp_all add: joined_names_def)
  from assms(2) obtain found where g: "glob fs ?tc ''thumbcache_*.db'' = Inr found"
    unfolding scan_windows_cache_def Let_def by (auto split: sum.splits)
  from cl wt g have wf: "\<forall>p \<in> set found. W p"
    by (rule closed_glob)
  from assms(2) g obtain files tot
    where t: "scan_thumbnails c fs found ([], 0) = Inr (files, tot)"
    unfolding scan_windows_cache_def Let_def by (auto split: sum.splits)
  from wf collected_empty t have acc: "collected W c fs (files, tot)"
    by (rule scan_thumbnails_collected)
  from assms(2) g t obtain b where b: "exists fs ?ic = Inr b"
    unfolding scan_windows_cache_def Let_def by (auto split: sum.splits)
  show ?thesis
  proof (cases "b \<and> is_safe_to_delete c ?ic")
    case False
    with assms(2) g t b acc show ?thesis
      unfolding scan_windows_cache_def Let_def by auto
  next
    case True
    from get_file_size_total obtain n where n: "get_file_size fs ?ic = Inr n" by blast
    from acc wi True n have "collected W c fs (files @ [str ?ic], tot + n)"
      by (simp add: collected_snoc)
    with assms(2) g t b True n show ?thesis
      unfolding scan_windows_cache_def Let_def by auto
  qed
qed

lemma scan_log_files_collected:
  assumes cl: "closed_under_scan W c fs" and "scan_log_files c fs = Inr r"
  shows "collected W c fs r"
proof -
  have "\<forall>d \<in> set [temp_dir c, local_app_data c, Path ''C:/Windows/Logs'']. W d"
    using closed_cleaner [OF cl] closed_fixed [OF cl, of "''C:/Windows/Logs''"]
    by (simp add: fixed_roots_def)
  from cl this collected_empty assms(2) [unfolded scan_log_files_def] show ?thesis
    by (rule scan_locations_collected)
qed

lemma scan_old_files_collected:
  assumes cl: "closed_under_scan W c fs" and "scan_old_files c fs = Inr r"
  shows "collected W c fs r"
proof -
  have "\<forall>d \<in> set [temp_dir c, user_home c, local_app_data c]. W d"
    using closed_cleaner [OF cl] by simp
  from cl this collected_empty assms(2) [unfolded scan_old_files_def] show ?thesis
    by (rule scan_locations_collected)
qed

lemma scan_method_collected:
  assumes cl: "closed_under_scan W c fs"
    and "(category, method) \<in> set scan_methods" and "method c fs = Inr r"
  shows "collected W c fs r"
proof -
  note w = closed_cleaner [OF cl]
  from assms(2) consider "method = scan_temp_user" | "method = scan_temp_windows"
    | "method = scan_prefetch" | "method = scan_browser_cache" | "method = scan_windows_cache"
    | "method = scan_recent_files" | "method = scan_log_files" | "method = scan_old_files"
    by (auto simp: scan_methods_def)
  then show ?thesis
  proof cases
    case 1
    with assms(3) w show ?thesis
      by (auto simp: scan_temp_user_def intro: scan_directory_collected [OF cl])
  next
    case 2
    have "W (Path ''C:/Windows/Temp'')"
      using closed_fixed [OF cl] by (simp add: fixed_roots_def)
    with 2 assms(3) show ?thesis
      by (auto simp: scan_temp_windows_def intro: scan_directory_collected [OF cl])
  next
    case 3
    have "W (Path ''C:/Windows/Prefetch'')"
      using closed_fixed [OF cl] by (simp add: fixed_roots_def)
    with 3 assms(3) show ?thesis
      by (auto simp: scan_prefetch_def intro: scan_directory_collected [OF cl])
  next
    case 4
    with assms(3) show ?thesis
      by (simp add: scan_browser_cache_collected [OF cl])
  next
    case 5
    with assms(3) show ?thesis
      by (simp add: scan_windows_cache_collected [OF cl])
  next
    case 6
    have "W (joinpath (app_data c) ''Microsoft/Windows/Recent'')"
      using closed_joinpath [OF cl] w by (simp add: joined_names_def)
    with 6 assms(3) show ?thesis
      by (auto simp: scan_recent_files_def intro: scan_directory_collected [OF cl])
  next
    case 7
    with assms(3) show ?thesis
      by (simp add: scan_log_files_collected [OF cl])
  next
    case 8
    with assms(3) show ?thesis
      by (simp add: scan_old_files_collected [OF cl])
  qed
qed

lemma scan_category_collected:
  assumes "closed_under_scan W c fs" and "scan_category c fs category = Inr r"
  shows "collected W c fs r"
proof (cases "map_of scan_methods category")
  case None
  with assms(2) show ?thesis by (auto simp: scan_category_def collected_empty)
next
  case (Some m)
  then have "(category, m) \<in> set scan_methods"
    by (rule map_of_SomeD)
  moreover from assms(2) Some have "m c fs = Inr r"
    by (simp add: scan_category_def)
  ultimately show ?thesis by (rule scan_method_collected [OF assms(1)])
qed

text \<open>
  On a plain file system the names of a scan result are read back by \<^verbatim>\<open>Path\<close> as
  the paths the scan listed.
\<close>

lemma scan_category_plain:
  assumes "plain_fs fs" and "plain_cleaner c"
    and "scan_category c fs category = Inr (files, tot)"
  shows "(\<forall>s \<in> set files. is_safe_to_delete c (Path s))
         \<and> (\<exists>sizes. map (\<lambda>s. get_file_size fs (Path s)) files = map Inr sizes
               \<and> tot = sum_list sizes)"
proof -
  from assms(1,2) have "closed_under_scan plain_path c fs"
    by (rule closed_plain)
  from this assms(3) have "collected plain_path c fs (files, tot)"
    by (rule scan_category_collected)
  then obtain ps sizes where h: "files = map str ps"
    "\<forall>p \<in> set ps. plain_path p \<and> is_safe_to_delete c p"
    "map (get_file_size fs) ps = map Inr sizes" "tot = sum_list sizes"
    by (auto simp: collected_def)
  from h(2) have "\<And>p. p \<in> set ps \<Longrightarrow> (Path \<circ> str) p = p"
    by (simp add: Path_str)
  then have "map (Path \<circ> str) ps = ps"
    by (rule map_idI)
  then have rt: "map Path (map str ps) = ps"
    by simp
  have "map (\<lambda>s. get_file_size fs (Path s)) files = map (get_file_size fs) (map Path files)"
    by simp
  with h(1,3) rt have "map (\<lambda>s. get_file_size fs (Path s)) files = map Inr sizes"
    by simp
  moreover from h(1,2) have "\<forall>s \<in> set files. is_safe_to_delete c (Path s)"
    by (auto simp: Path_str)
  ultimately show ?thesis
    using h(4) by blast
qed

lemma scan_category_collected_any:
  "scan_category c fs category = Inr r \<Longrightarrow> collected (\<lambda>p. True) c fs r"
  by (rule scan_category_collected [OF closed_trivial])


section \<open>Properties of cleaning\<close>

lemma path_eq_left: "path_eq k k' \<Longrightarrow> path_eq k p = path_eq k' p"
  by (simp add: path_eq_def)

lemma casefold_eqD:
  "casefold k = casefold k' \<Longrightarrow>
     lower (drv k) = lower (drv k') \<and> lower (root k) = lower (root k')
     \<and> map lower (parts k) = map lower (parts k')"
  by (simp add: casefold_def)

lemma nested_under_left: "path_eq k k' \<Longrightarrow> nested_under k p = nested_under k' p"
proof -
  assume "path_eq k k'"
  then have e: "lower (drv k) = lower (drv k')" "lower (root k) = lower (root k')"
    "map lower (parts k) = map lower (parts k')"
    by (auto simp: path_eq_def dest: casefold_eqD)
  from e(3) have "length (parts k) = length (parts k')"
    by (rule map_eq_imp_length_eq)
  with e show ?thesis
    by (simp add: nested_under_def)
qed

lemma nested_under_right: "path_eq q q' \<Longrightarrow> nested_under r q = nested_under r q'"
proof -
  assume "path_eq q q'"
  then have e: "lower (drv q) = lower (drv q')" "lower (root q) = lower (root q')"
    "map lower (parts q) = map lower (parts q')"
    by (auto simp: path_eq_def dest: casefold_eqD)
  from e(3) have "length (parts q) = length (parts q')"
    by (rule map_eq_imp_length_eq)
  with e show ?thesis
    by (simp add: nested_under_def)
qed

lemma is_ancestor_nested: "is_ancestor a p = nested_under p a"
  by (simp add: is_ancestor_def nested_under_parents)

lemma in_tree_cong: "path_eq k k' \<Longrightarrow> in_tree p k = in_tree p k'"
  by (simp add: in_tree_def is_ancestor_nested path_eq_left [of k k'] nested_under_left [of k k'])

lemma survives_cong: "path_eq q q' \<Longrightarrow> survives fs p q = survives fs p q'"
proof -
  assume e: "path_eq q q'"
  have "\<And>r. (path_eq r q \<or> is_ancestor q r) = (path_eq r q' \<or> is_ancestor q' r)"
    using e nested_under_right [OF e] by (auto simp: is_ancestor_nested path_eq_def)
  then show ?thesis
    by (simp add: survives_def)
qed

lemma lookup_entry_filter:
  assumes "\<And>k k'. path_eq k k' \<Longrightarrow> K k = K k'"
  shows "lookup_entry (filter (\<lambda>(k, _). K k) es) q = (if K q then lookup_entry es q else None)"
proof (induction es)
  case Nil
  then show ?case by simp
next
  case (Cons a es)
  obtain k n where a: "a = (k, n)" by (cases a)
  show ?case
  proof (cases "path_eq k q")
    case True
    with assms have "K k = K q" by blast
    with Cons a True show ?thesis by simp
  next
    case False
    with Cons a show ?thesis by simp
  qed
qed

lemma exists_lookup:
  "exists fs p =
     (case lookup fs p of
        None \<Rightarrow> Inr False
      | Some n \<Rightarrow> if stat_denied n then Inl PermissionError else Inr True)"
  by (simp add: exists_def stat_test_def stat_def ignore_error_def split: option.splits)

lemma is_file_lookup:
  "is_file fs p =
     (case lookup fs p of
        None \<Rightarrow> Inr False
      | Some n \<Rightarrow> if stat_denied n then Inl PermissionError else Inr (kind n \<noteq> Directory))"
  by (simp add: is_file_def stat_test_def stat_def ignore_error_def
           split: option.splits kind.splits)

lemma lookup_log_removal: "lookup (log_removal fs p) q = lookup fs q"
  by (simp add: lookup_def log_removal_def)

lemma unlink_step: "unlink fs p = (r, fs') \<Longrightarrow> removal_step fs p fs'"
proof -
  assume a: "unlink fs p = (r, fs')"
  have k: "\<And>k k'. path_eq k k' \<Longrightarrow> (\<not> path_eq k p) = (\<not> path_eq k' p)"
    by (simp add: path_eq_def)
  have "lookup_entry (filter (\<lambda>(k, _). \<not> path_eq k p) (entries fs)) q
          = (if \<not> path_eq q p then lookup_entry (entries fs) q else None)" for q
    by (rule lookup_entry_filter) (rule k)
  with a show ?thesis
    by (auto simp: unlink_def Let_def removal_step_def log_removal_def lookup_def
             split: option.splits if_splits)
qed

lemma unlink_gone: "unlink fs p = (Inr u, fs') \<Longrightarrow> lookup fs' p = None"
proof -
  assume a: "unlink fs p = (Inr u, fs')"
  have k: "\<And>k k'. path_eq k k' \<Longrightarrow> (\<not> path_eq k p) = (\<not> path_eq k' p)"
    by (simp add: path_eq_def)
  have "lookup_entry (filter (\<lambda>(k, _). \<not> path_eq k p) (entries fs)) p
          = (if \<not> path_eq p p then lookup_entry (entries fs) p else None)"
    by (rule lookup_entry_filter) (rule k)
  with a show ?thesis
    by (auto simp: unlink_def Let_def log_removal_def lookup_def path_eq_refl
             split: option.splits if_splits)
qed

lemma unlink_error: "unlink fs p = (Inl e, fs') \<Longrightarrow> is_OSError e"
  by (auto simp: unlink_def Let_def is_OSError_def split: option.splits if_splits)

lemma rmtree_step: "removal_step fs p (rmtree fs p)"
proof -
  let ?K = "\<lambda>k. \<not> in_tree p k \<or> survives fs p k \<or> (parts p = [] \<and> path_eq k p)"
  have k: "\<And>k k'. path_eq k k' \<Longrightarrow> ?K k = ?K k'"
    using in_tree_cong survives_cong path_eq_left by blast
  have "lookup_entry (filter (\<lambda>(k, _). ?K k) (entries fs)) q
          = (if ?K q then lookup_entry (entries fs) q else None)" for q
    by (rule lookup_entry_filter) (rule k)
  then show ?thesis
    by (auto simp: rmtree_def Let_def removal_step_def log_removal_def lookup_def
             split: option.splits if_splits)
qed

text \<open>The two removers of \<^verbatim>\<open>utils.py\<close>, called on a name that exists.\<close>

lemma safe_remove_file_step:
  assumes "lookup fs p = Some n" and "\<not> stat_denied n"
  shows "\<exists>ok fs'. safe_remove_file fs p = (Inr ok, fs') \<and> removal_step fs p fs'
           \<and> (ok \<longrightarrow> lookup fs' p = None)"
proof -
  from assms have e: "exists fs p = Inr True"
    by (simp add: exists_lookup)
  obtain r fs' where u: "unlink fs p = (r, fs')"
    by (cases "unlink fs p")
  then have s: "removal_step fs p fs'"
    by (rule unlink_step)
  show ?thesis
  proof (cases r)
    case (Inl x)
    with u have "is_OSError x" by (simp add: unlink_error)
    with e u Inl s show ?thesis
      by (auto simp: safe_remove_file_def)
  next
    case (Inr y)
    with u have "lookup fs' p = None" by (simp add: unlink_gone)
    with e u Inr s show ?thesis
      by (auto simp: safe_remove_file_def)
  qed
qed

lemma safe_remove_dir_step:
  assumes "lookup fs p = Some n" and "\<not> stat_denied n"
  shows "\<exists>ok fs'. safe_remove_dir fs p = (Inr ok, fs') \<and> removal_step fs p fs'
           \<and> (ok \<longrightarrow> lookup fs' p = None)"
proof -
  from assms have e: "exists fs p = Inr True"
    by (simp add: exists_lookup)
  have s: "removal_step fs p (rmtree fs p)"
    by (rule rmtree_step)
  show ?thesis
  proof (cases "lookup (rmtree fs p) p")
    case None
    with e s show ?thesis
      by (auto simp: safe_remove_dir_def Let_def exists_lookup)
  next
    case (Some m)
    with s assms have "m = n"
      by (auto simp: removal_step_def)
    with Some assms e s show ?thesis
      by (auto simp: safe_remove_dir_def Let_def exists_lookup)
  qed
qed

text \<open>One iteration of the cleaning loop, by what the name refers to.\<close>

lemma clean_iteration_absent:
  "lookup (fs_of st) (Path f) = None \<Longrightarrow> clean_iteration c st f = (Inr (), st)"
  by (simp add: clean_iteration_def clean_try_def exists_lookup)

lemma clean_iteration_rejected:
  assumes "lookup (fs_of st) (Path f) = Some n"
    and "stat_denied n \<or> \<not> is_safe_to_delete c (Path f)"
  shows "clean_iteration c st f = (Inr (), st\<lparr>errors := errors st + 1\<rparr>)"
  using assms by (auto simp: clean_iteration_def clean_try_def exists_lookup)

lemma clean_iteration_attempt:
  assumes "lookup (fs_of st) (Path f) = Some n" and "\<not> stat_denied n"
    and "is_safe_to_delete c (Path f)"
  shows "\<exists>ok fs' sz. removal_step (fs_of st) (Path f) fs' \<and> 0 \<le> sz
           \<and> get_file_size (fs_of st) (Path f) = Inr sz
           \<and> (ok \<longrightarrow> lookup fs' (Path f) = None)
           \<and> clean_iteration c st f =
               (Inr (), if ok then st\<lparr>fs_of := fs', removed := removed st + 1,
                                        size_freed := size_freed st + sz\<rparr>
                        else st\<lparr>fs_of := fs', errors := errors st + 1\<rparr>)"
proof -
  let ?p = "Path f" and ?fs = "fs_of st"
  from assms have e: "exists ?fs ?p = Inr True"
    by (simp add: exists_lookup)
  from get_file_size_total obtain sz where sz: "get_file_size ?fs ?p = Inr sz" "0 \<le> sz"
    by blast
  from assms have i: "is_file ?fs ?p = Inr (kind n \<noteq> Directory)"
    by (simp add: is_file_lookup)
  from safe_remove_file_step [OF assms(1,2)] safe_remove_dir_step [OF assms(1,2)]
  obtain ok fs' where r: "(if kind n \<noteq> Directory then safe_remove_file ?fs ?p
        else safe_remove_dir ?fs ?p) = (Inr ok, fs')"
    and s: "removal_step ?fs ?p fs'" and g: "ok \<longrightarrow> lookup fs' ?p = None"
    by (cases "kind n \<noteq> Directory") auto
  from e assms(3) sz i r
  have "clean_iteration c st f =
      (Inr (), if ok then st\<lparr>fs_of := fs', removed := removed st + 1,
                               size_freed := size_freed st + sz\<rparr>
               else st\<lparr>fs_of := fs', errors := errors st + 1\<rparr>)"
    by (simp add: clean_iteration_def clean_try_def)
  with s g sz show ?thesis by blast
qed

text \<open>What one iteration does to the variables, whatever the entry.\<close>

lemma clean_iteration_summary:
  "\<exists>st' cs. clean_iteration c st f = (Inr (), st')
     \<and> removal_calls (fs_of st') = removal_calls (fs_of st) @ cs \<and> length cs \<le> 1
     \<and> (\<forall>p \<in> set cs. p = Path f \<and> is_safe_to_delete c p)
     \<and> (\<forall>q n. lookup (fs_of st') q = Some n \<longrightarrow> lookup (fs_of st) q = Some n)
     \<and> removed st \<le> removed st' \<and> errors st \<le> errors st' \<and> size_freed st \<le> size_freed st'
     \<and> removed st' - removed st \<le> int (length cs)
     \<and> (removed st' - removed st) + (errors st' - errors st) \<le> 1"
proof (cases "lookup (fs_of st) (Path f)")
  case None
  then have "clean_iteration c st f = (Inr (), st)"
    by (rule clean_iteration_absent)
  then show ?thesis
    by (intro exI [of _ st] exI [of _ "[]"]) simp
next
  case (Some n)
  show ?thesis
  proof (cases "stat_denied n \<or> \<not> is_safe_to_delete c (Path f)")
    case True
    with Some have "clean_iteration c st f = (Inr (), st\<lparr>errors := errors st + 1\<rparr>)"
      by (rule clean_iteration_rejected)
    then show ?thesis
      by (intro exI [of _ "st\<lparr>errors := errors st + 1\<rparr>"] exI [of _ "[]"]) simp
  next
    case False
    with Some clean_iteration_attempt [of st f n c]
    obtain ok fs' sz where s: "removal_step (fs_of st) (Path f) fs'" and sz: "0 \<le> sz"
      and i: "clean_iteration c st f =
               (Inr (), if ok then st\<lparr>fs_of := fs', removed := removed st + 1,
                                        size_freed := size_freed st + sz\<rparr>
                        else st\<lparr>fs_of := fs', errors := errors st + 1\<rparr>)"
      by blast
    let ?st' = "if ok then st\<lparr>fs_of := fs', removed := removed st + 1,
                                size_freed := size_freed st + sz\<rparr>
                else st\<lparr>fs_of := fs', errors := errors st + 1\<rparr>"
    from s sz False i show ?thesis
      by (intro exI [of _ ?st'] exI [of _ "[Path f]"]) (auto simp: removal_step_def)
  qed
qed

lemma clean_iteration_Inr: "clean_iteration c st f = (Inr (), snd (clean_iteration c st f))"
  using clean_iteration_summary [of c st f] by auto

lemma clean_loop_foldl:
  "clean_loop c st files = (Inr (), foldl (\<lambda>s f. snd (clean_iteration c s f)) st files)"
proof (induction files arbitrary: st)
  case Nil
  then show ?case by simp
next
  case (Cons f files)
  obtain st1 where i: "clean_iteration c st f = (Inr (), st1)"
    using clean_iteration_Inr by blast
  with Cons [of st1] show ?case by simp
qed

lemma clean_loop_append:
  "clean_loop c st (xs @ ys) = clean_loop c (snd (clean_loop c st xs)) ys"
  by (simp add: clean_loop_foldl)

lemma clean_loop_summary:
  "\<exists>st' cs. clean_loop c st files = (Inr (), st')
     \<and> removal_calls (fs_of st') = removal_calls (fs_of st) @ cs \<and> length cs \<le> length files
     \<and> (\<forall>p \<in> set cs. p \<in> Path ` set files \<and> is_safe_to_delete c p)
     \<and> (\<forall>q n. lookup (fs_of st') q = Some n \<longrightarrow> lookup (fs_of st) q = Some n)
     \<and> removed st \<le> removed st' \<and> errors st \<le> errors st' \<and> size_freed st \<le> size_freed st'
     \<and> removed st' - removed st \<le> int (length cs)
     \<and> (removed st' - removed st) + (errors st' - errors st) \<le> int (length files)"
proof (induction files arbitrary: st)
  case Nil
  show ?case
    by (intro exI [of _ st] exI [of _ "[]"]) simp
next
  case (Cons f files)
  from clean_iteration_summary [of c st f] obtain st1 cs1
    where i: "clean_iteration c st f = (Inr (), st1)"
      and c1: "removal_calls (fs_of st1) = removal_calls (fs_of st) @ cs1" "length cs1 \<le> 1"
        "\<forall>p \<in> set cs1. p = Path f \<and> is_safe_to_delete c p"
      and m1: "\<forall>q n. lookup (fs_of st1) q = Some n \<longrightarrow> lookup (fs_of st) q = Some n"
      and n1: "removed st \<le> removed st1" "errors st \<le> errors st1"
        "size_freed st \<le> size_freed st1" "removed st1 - removed st \<le> int (length cs1)"
        "(removed st1 - removed st) + (errors st1 - errors st) \<le> 1"
    by blast
  from Cons [of st1] obtain st' cs
    where l: "clean_loop c st1 files = (Inr (), st')"
      and c2: "removal_calls (fs_of st') = removal_calls (fs_of st1) @ cs"
        "length cs \<le> length files"
        "\<forall>p \<in> set cs. p \<in> Path ` set files \<and> is_safe_to_delete c p"
      and m2: "\<forall>q n. lookup (fs_of st') q = Some n \<longrightarrow> lookup (fs_of st1) q = Some n"
      and n2: "removed st1 \<le> removed st'" "errors st1 \<le> errors st'"
        "size_freed st1 \<le> size_freed st'" "removed st' - removed st1 \<le> int (length cs)"
        "(removed st' - removed st1) + (errors st' - errors st1) \<le> int (length files)"
    by blast
  from i l have "clean_loop c st (f # files) = (Inr (), st')" by simp
  moreover from c1 c2 have "removal_calls (fs_of st') = removal_calls (fs_of st) @ (cs1 @ cs)"
    "length (cs1 @ cs) \<le> length (f # files)"
    "\<forall>p \<in> set (cs1 @ cs). p \<in> Path ` set (f # files) \<and> is_safe_to_delete c p"
    by auto
  moreover from m1 m2
  have "\<forall>q n. lookup (fs_of st') q = Some n \<longrightarrow> lookup (fs_of st) q = Some n"
    by blast
  moreover from n1 n2 have "removed st \<le> removed st'" "errors st \<le> errors st'"
    "size_freed st \<le> size_freed st'" "removed st' - removed st \<le> int (length (cs1 @ cs))"
    "(removed st' - removed st) + (errors st' - errors st) \<le> int (length (f # files))"
    by auto
  ultimately show ?case by blast
qed

lemma second_pass:
  "\<forall>f \<in> set files. settled c (fs_of st) f \<Longrightarrow>
     clean_loop c st files
       = (Inr (), st\<lparr>errors := errors st + sum_list (map (counted (fs_of st)) files)\<rparr>)"
proof (induction files arbitrary: st)
  case Nil
  then show ?case by simp
next
  case (Cons f files)
  show ?case
  proof (cases "lookup (fs_of st) (Path f)")
    case None
    then have "clean_iteration c st f = (Inr (), st)"
      by (rule clean_iteration_absent)
    with Cons None show ?thesis
      by (simp add: counted_def)
  next
    case (Some n)
    with Cons.prems have "stat_denied n \<or> \<not> is_safe_to_delete c (Path f)"
      by (simp add: settled_def)
    with Some have "clean_iteration c st f = (Inr (), st\<lparr>errors := errors st + 1\<rparr>)"
      by (rule clean_iteration_rejected)
    with Cons.IH [of "st\<lparr>errors := errors st + 1\<rparr>"] Cons.prems Some show ?thesis
      by (simp add: counted_def add.assoc)
  qed
qed

lemma first_pass:
  assumes "clean_loop c st files = (r, st')"
    and "removed st' - removed st
           = int (length (removal_calls (fs_of st'))) - int (length (removal_calls (fs_of st)))"
  shows "(\<forall>f \<in> set files. settled c (fs_of st') f)
         \<and> sum_list (map (counted (fs_of st')) files) \<le> errors st' - errors st"
  using assms
proof (induction files arbitrary: st)
  case Nil
  then show ?case by simp
next
  case (Cons f files)
  from clean_iteration_summary [of c st f] obtain st1 cs1
    where i: "clean_iteration c st f = (Inr (), st1)"
      and c1: "removal_calls (fs_of st1) = removal_calls (fs_of st) @ cs1"
      and n1: "removed st1 - removed st \<le> int (length cs1)" "errors st \<le> errors st1"
    by blast
  from clean_loop_summary [of c st1 files] obtain st2 cs
    where l: "clean_loop c st1 files = (Inr (), st2)"
      and c2: "removal_calls (fs_of st2) = removal_calls (fs_of st1) @ cs"
      and m2: "\<forall>q n. lookup (fs_of st2) q = Some n \<longrightarrow> lookup (fs_of st1) q = Some n"
      and n2: "removed st2 - removed st1 \<le> int (length cs)" "errors st1 \<le> errors st2"
    by blast
  from i l Cons.prems(1) have st': "st2 = st'" and r: "r = Inr ()" by simp_all
  from Cons.prems(2) c1 c2 st' n1 n2
  have e1: "removed st1 - removed st = int (length cs1)"
    and e2: "removed st' - removed st1
               = int (length (removal_calls (fs_of st'))) - int (length (removal_calls (fs_of st1)))"
    by auto
  from l st' r have "clean_loop c st1 files = (r, st')" by simp
  from Cons.IH [OF this e2]
  have ih: "\<forall>f \<in> set files. settled c (fs_of st') f"
    "sum_list (map (counted (fs_of st')) files) \<le> errors st' - errors st1"
    by auto
  have "settled c (fs_of st') f \<and> counted (fs_of st') f \<le> errors st1 - errors st"
  proof (cases "lookup (fs_of st) (Path f)")
    case None
    then have "clean_iteration c st f = (Inr (), st)"
      by (rule clean_iteration_absent)
    with i have "st1 = st" by simp
    with None m2 st' have "lookup (fs_of st') (Path f) = None"
      by (cases "lookup (fs_of st') (Path f)") auto
    with \<open>st1 = st\<close> show ?thesis
      by (simp add: settled_def counted_def)
  next
    case (Some n)
    show ?thesis
    proof (cases "stat_denied n \<or> \<not> is_safe_to_delete c (Path f)")
      case True
      with Some have "clean_iteration c st f = (Inr (), st\<lparr>errors := errors st + 1\<rparr>)"
        by (rule clean_iteration_rejected)
      with i have s1: "st1 = st\<lparr>errors := errors st + 1\<rparr>" by simp
      show ?thesis
      proof (cases "lookup (fs_of st') (Path f)")
        case None
        with s1 show ?thesis by (simp add: settled_def counted_def)
      next
        case (Some m)
        with m2 st' s1 \<open>lookup (fs_of st) (Path f) = Some n\<close> have "m = n" by auto
        with Some True s1 show ?thesis by (simp add: settled_def counted_def)
      qed
    next
      case False
      with Some clean_iteration_attempt [of st f n c]
      obtain ok fs' sz where s: "removal_step (fs_of st) (Path f) fs'"
        and g: "ok \<longrightarrow> lookup fs' (Path f) = None"
        and i': "clean_iteration c st f =
               (Inr (), if ok then st\<lparr>fs_of := fs', removed := removed st + 1,
                                        size_freed := size_freed st + sz\<rparr>
                        else st\<lparr>fs_of := fs', errors := errors st + 1\<rparr>)"
        by blast
      from i i' have s1: "st1 = (if ok then st\<lparr>fs_of := fs', removed := removed st + 1,
                                        size_freed := size_freed st + sz\<rparr>
                        else st\<lparr>fs_of := fs', errors := errors st + 1\<rparr>)"
        by simp
      from s s1 c1 have "cs1 = [Path f]"
        by (auto simp: removal_step_def split: if_splits)
      with e1 s1 have ok by (auto split: if_splits)
      with g s1 have "lookup (fs_of st1) (Path f) = None" by simp
      with m2 st' have "lookup (fs_of st') (Path f) = None"
        by (cases "lookup (fs_of st') (Path f)") auto
      with n1 show ?thesis
        by (simp add: settled_def counted_def)
    qed
  qed
  with ih show ?case by auto
qed


lemma clean_files_summary:
  "\<exists>st' cs. clean_files c fs files = Inr ((removed st', size_freed st', errors st'), fs_of st')
     \<and> clean_loop c (start fs) files = (Inr (), st')
     \<and> removal_calls (fs_of st') = removal_calls fs @ cs \<and> length cs \<le> length files
     \<and> (\<forall>p \<in> set cs. p \<in> Path ` set files \<and> is_safe_to_delete c p)
     \<and> 0 \<le> removed st' \<and> 0 \<le> errors st' \<and> 0 \<le> size_freed st'
     \<and> removed st' \<le> int (length cs)
     \<and> removed st' + errors st' \<le> int (length files)"
proof -
  from clean_loop_summary [of c "start fs" files] obtain st' cs
    where "clean_loop c (start fs) files = (Inr (), st')"
      and "removal_calls (fs_of st') = removal_calls (fs_of (start fs)) @ cs"
      and "length cs \<le> length files"
      and "\<forall>p \<in> set cs. p \<in> Path ` set files \<and> is_safe_to_delete c p"
      and "removed (start fs) \<le> removed st'" "errors (start fs) \<le> errors st'"
        "size_freed (start fs) \<le> size_freed st'"
        "removed st' - removed (start fs) \<le> int (length cs)"
        "(removed st' - removed (start fs)) + (errors st' - errors (start fs))
           \<le> int (length files)"
    by blast
  then show ?thesis
    by (intro exI [of _ st'] exI [of _ cs]) (simp add: clean_files_def start_def)
qed

lemma collected_nonneg: "collected W c fs (files, tot) \<Longrightarrow> 0 \<le> tot"
  by (auto simp: collected_def intro: sum_list_nonneg)

lemma counted_nonneg: "0 \<le> sum_list (map (counted fs) files)"
  by (rule sum_list_nonneg) (auto simp: counted_def split: option.splits)

lemma get_file_size_stat_error: "stat fs p = Inl e \<Longrightarrow> get_file_size fs p = Inr 0"
proof -
  assume a: "stat fs p = Inl e"
  then consider "lookup fs p = None" | n where "lookup fs p = Some n" "stat_denied n"
    by (auto simp: stat_def split: option.splits if_splits)
  then show ?thesis
  proof cases
    case 1
    then show ?thesis
      by (simp add: get_file_size_def get_file_size_try_def is_file_def is_dir_def
            stat_test_def stat_def ignore_error_def)
  next
    case 2
    then show ?thesis
      by (simp add: get_file_size_def get_file_size_try_def is_file_def
            stat_test_def stat_def ignore_error_def is_OSError_def)
  qed
qed

text \<open>One iteration, by what \<^verbatim>\<open>exists\<close> and the safety filter answer.\<close>

lemma clean_iteration_cases:
  "\<exists>st'. clean_iteration c st f = (Inr (), st')
     \<and> (case exists (fs_of st) (Path f) of
          Inl e \<Rightarrow> st' = st\<lparr>errors := errors st + 1\<rparr>
        | Inr False \<Rightarrow> st' = st
        | Inr True \<Rightarrow>
            if \<not> is_safe_to_delete c (Path f) then st' = st\<lparr>errors := errors st + 1\<rparr>
            else removal_calls (fs_of st') = removal_calls (fs_of st) @ [Path f]
                 \<and> (\<exists>sz. get_file_size (fs_of st) (Path f) = Inr sz
                       \<and> (st' = st\<lparr>fs_of := fs_of st', removed := removed st + 1,
                                     size_freed := size_freed st + sz\<rparr>
                            \<and> exists (fs_of st') (Path f) = Inr False
                          \<or> st' = st\<lparr>fs_of := fs_of st', errors := errors st + 1\<rparr>)))"
proof (cases "lookup (fs_of st) (Path f)")
  case None
  then have "clean_iteration c st f = (Inr (), st)"
    by (rule clean_iteration_absent)
  with None show ?thesis
    by (simp add: exists_lookup)
next
  case (Some n)
  show ?thesis
  proof (cases "stat_denied n \<or> \<not> is_safe_to_delete c (Path f)")
    case True
    with Some have "clean_iteration c st f = (Inr (), st\<lparr>errors := errors st + 1\<rparr>)"
      by (rule clean_iteration_rejected)
    with Some True show ?thesis
      by (auto simp: exists_lookup)
  next
    case False
    with Some clean_iteration_attempt [of st f n c]
    obtain ok fs' sz where s: "removal_step (fs_of st) (Path f) fs'"
      and sz: "get_file_size (fs_of st) (Path f) = Inr sz"
      and g: "ok \<longrightarrow> lookup fs' (Path f) = None"
      and i: "clean_iteration c st f =
               (Inr (), if ok then st\<lparr>fs_of := fs', removed := removed st + 1,
                                        size_freed := size_freed st + sz\<rparr>
                        else st\<lparr>fs_of := fs', errors := errors st + 1\<rparr>)"
      by blast
    from Some False have e: "exists (fs_of st) (Path f) = Inr True"
      by (simp add: exists_lookup)
    show ?thesis
    proof (cases ok)
      case True
      with g have "exists fs' (Path f) = Inr False"
        by (simp add: exists_lookup)
      with True i e False s sz show ?thesis
        by (simp add: removal_step_def)
    next
      case no: False
      with i e False s sz show ?thesis
        by (simp add: removal_step_def)
    qed
  qed
qed

text \<open>
  The loop of \<^verbatim>\<open>_scan_directory\<close> at a name whose \<^verbatim>\<open>stat\<close> is refused, and
  the size of a name that \<^verbatim>\<open>is_file\<close> accepts.
\<close>

lemma scan_files_stat_refused:
  "stat fs p = Inl PermissionError \<Longrightarrow>
     scan_files c fs (p # rest) (files, tot) = (Inl PermissionError, (files, tot))"
  by (simp add: is_file_def stat_test_def ignore_error_def)

lemma is_file_size:
  "is_file fs p = Inr True \<Longrightarrow> \<exists>n. stat fs p = Inr n \<and> get_file_size fs p = Inr (st_size n)"
  by (auto simp: is_file_def stat_test_def get_file_size_def get_file_size_try_def
           split: sum.splits if_splits)

lemma scan_directory_absent:
  "exists fs d = Inr False \<Longrightarrow> scan_directory c fs d patterns = Inr ([], 0)"
  by (simp add: scan_directory_def)


section \<open>The examples, evaluated\<close>

lemma temp_scenario_scan:
  "scan_category (init example_env) temp_scenario_fs ''temp_user''
     = Inr ([str (Path ''C:/Temp/data.bin'')], 2048)"
  by code_simp

lemma old_files_scan:
  "scan_category (init example_env) old_files_fs ''old_files''
     = Inr ([str (Path ''C:/Temp/a.tmp''), str (Path ''C:/Temp/~b.tmp''),
             str (Path ''C:/Temp/~b.tmp'')], 20)"
  by code_simp

lemma three_files_clean:
  "map_sum id fst (clean_files (init example_env) three_files_fs
      [''C:/Temp/a.tmp'', ''C:/Temp/b.tmp'', ''C:/Temp/c.tmp'']) = Inr (2, 40, 0)"
  by code_simp

lemma cwd_scan:
  "scan_category (init unset_env) cwd_fs ''temp_user''
     = Inr ([''notes.txt'', ''sub'' @ [sep] @ ''x.tmp''], 10)"
  by code_simp

lemma thumb_scan:
  "scan_category (init example_env) thumb_fs ''windows_cache''
     = Inr ([str (Path ''C:/Users/david/AppData/Local/Microsoft/Windows/Explorer/thumbcache_32.db''),
             str (Path ''C:/Users/david/AppData/Local/Microsoft/Windows/Explorer/thumbcache_64.db'')], 9)"
  by code_simp

lemma exe_clean:
  "clean_files (init example_env) temp_scenario_fs [''C:/Temp/setup.exe'']
     = Inr ((0, 0, 1), temp_scenario_fs)"
  by code_simp

lemma mixed_clean:
  "clean_files (init example_env) temp_scenario_fs [''C:/Temp/data.bin'', ''C:/Temp/setup.exe'']
     = Inr ((1, 2048, 1), after_data_bin)"
  by code_simp

lemma exe_exists: "exists temp_scenario_fs (Path ''C:/Temp/setup.exe'') = Inr True"
  by code_simp

lemma exe_unsafe: "\<not> is_safe_to_delete (init example_env) (Path ''C:/Temp/setup.exe'')"
  by code_simp

lemma locked_try:
  "clean_try (init example_env) (start locked_fs) ''C:/Temp/locked.tmp''
     = (Inl PermissionError, start locked_fs)"
  by code_simp

lemma b_missing: "exists three_files_fs (Path ''C:/Temp/b.tmp'') = Inr False"
  by code_simp

lemma a_cleaned:
  "clean_loop (init example_env) (start three_files_fs) [''C:/Temp/a.tmp'']
     = (Inr (), \<lparr>fs_of = \<lparr>entries = [(Path ''C:/Temp'', plain_dir),
                                        (Path ''C:/Temp/c.tmp'', plain_file 30)],
                             removal_calls = [Path ''C:/Temp/a.tmp'']\<rparr>,
                  removed = 1, size_freed = 10, errors = 0\<rparr>)"
  by code_simp

lemma b_missing_later:
  "exists \<lparr>entries = [(Path ''C:/Temp'', plain_dir), (Path ''C:/Temp/c.tmp'', plain_file 30)],
           removal_calls = [Path ''C:/Temp/a.tmp'']\<rparr> (Path ''C:/Temp/b.tmp'') = Inr False"
  by code_simp

lemma thumb_stat:
  "stat thumb_fs
     (Path ''C:/Users/david/AppData/Local/Microsoft/Windows/Explorer/thumbcache_32.db'')
     = Inl PermissionError"
  by code_simp

lemma thumb_safe:
  "is_safe_to_delete (init example_env)
     (Path ''C:/Users/david/AppData/Local/Microsoft/Windows/Explorer/thumbcache_32.db'')"
  by code_simp


lemma examples_plain:
  "plain_cleaner (init example_env)" "plain_fs temp_scenario_fs" "plain_fs old_files_fs"
  by code_simp+

lemma old_files_sizes:
  "map (\<lambda>s. get_file_size old_files_fs (Path s))
     [str (Path ''C:/Temp/a.tmp''), str (Path ''C:/Temp/~b.tmp''), str (Path ''C:/Temp/~b.tmp'')]
   = map Inr [10, 5, 5]"
  by code_simp

lemma data_bin_back: "Path (str (Path ''C:/Temp/data.bin'')) = Path ''C:/Temp/data.bin''"
  by code_simp

lemma data_bin_is_file: "is_file temp_scenario_fs (Path ''C:/Temp/data.bin'') = Inr True"
  by code_simp

lemma locked_stat: "stat locked_fs (Path ''C:/Temp/locked.tmp'') = Inl PermissionError"
  by code_simp

lemma locked_safe: "is_safe_to_delete (init example_env) (Path ''C:/Temp/locked.tmp'')"
  by code_simp

lemma locked_scan: "scan_category (init example_env) locked_fs ''temp_user'' = Inr ([], 0)"
  by code_simp

lemma a_tmp_step:
  "snd (clean_iteration (init example_env) (start three_files_fs) ''C:/Temp/a.tmp'')
     = \<lparr>fs_of = \<lparr>entries = [(Path ''C:/Temp'', plain_dir),
                                 (Path ''C:/Temp/c.tmp'', plain_file 30)],
                      removal_calls = [Path ''C:/Temp/a.tmp'']\<rparr>,
          removed = 1, size_freed = 10, errors = 0\<rparr>"
  by code_simp

section \<open>The claims\<close>

text \<open>
  Claim C3. A path that is equal to a protected directory, or nested under one, is
  never safe to delete, whatever its extension: the first test of the filter rejects it
  before the extension is looked at.
\<close>

theorem is_safe_to_delete_protected_dir:
  "protected \<in> set (protected_dirs c) \<Longrightarrow> path_eq p protected \<or> nested_under p protected
   \<Longrightarrow> \<not> is_safe_to_delete c p"
  unfolding is_safe_to_delete_def list_ex_iff nested_under_parents by auto

theorem is_safe_to_delete_protected_dir_witness:
  "Path ''C:/Program Files'' \<in> set (protected_dirs (init example_env))
   \<and> nested_under (Path ''c:/program files/Tool/notes.txt'') (Path ''C:/Program Files'')
   \<and> \<not> is_safe_to_delete (init example_env) (Path ''c:/program files/Tool/notes.txt'')
   \<and> path_eq (Path ''C:/USERS/David/Desktop'') (joinpath (home example_env) ''Desktop'')
   \<and> \<not> is_safe_to_delete (init example_env) (Path ''C:/USERS/David/Desktop'')"
proof -
  have m: "Path ''C:/Program Files'' \<in> set (protected_dirs (init example_env))"
    by code_simp
  have n: "nested_under (Path ''c:/program files/Tool/notes.txt'') (Path ''C:/Program Files'')"
    by code_simp
  have m': "joinpath (home example_env) ''Desktop'' \<in> set (protected_dirs (init example_env))"
    by code_simp
  have e: "path_eq (Path ''C:/USERS/David/Desktop'') (joinpath (home example_env) ''Desktop'')"
    by code_simp
  from is_safe_to_delete_protected_dir [OF m] n
  have "\<not> is_safe_to_delete (init example_env) (Path ''c:/program files/Tool/notes.txt'')"
    by blast
  moreover from is_safe_to_delete_protected_dir [OF m'] e
  have "\<not> is_safe_to_delete (init example_env) (Path ''C:/USERS/David/Desktop'')"
    by blast
  ultimately show ?thesis using m n e by blast
qed

text \<open>
  Claim C4. A path whose suffix, lower-cased, is a protected extension is never safe to
  delete, wherever it lies; and the scan of the user's temp directory holding one
  2048-byte file and one 100-byte \<^verbatim>\<open>.exe\<close> file returns the first file alone, with
  total size 2048.
\<close>

theorem protected_extension_unsafe:
  "(lower (suffix p) \<in> set (protected_extensions c) \<longrightarrow> \<not> is_safe_to_delete c p)
   \<and> scan_category (init example_env) temp_scenario_fs ''temp_user''
       = Inr ([str (Path ''C:/Temp/data.bin'')], 2048)"
proof
  show "lower (suffix p) \<in> set (protected_extensions c) \<longrightarrow> \<not> is_safe_to_delete c p"
    by (simp add: is_safe_to_delete_def)
  show "scan_category (init example_env) temp_scenario_fs ''temp_user''
       = Inr ([str (Path ''C:/Temp/data.bin'')], 2048)"
    by (rule temp_scenario_scan)
qed

theorem protected_extension_unsafe_witness:
  "lower (suffix (Path ''D:/data/Setup.EXE'')) \<in> set (protected_extensions (init example_env))
   \<and> \<not> list_ex (\<lambda>d. path_eq (Path ''D:/data/Setup.EXE'') d
                    \<or> nested_under (Path ''D:/data/Setup.EXE'') d)
         (protected_dirs (init example_env))
   \<and> \<not> is_safe_to_delete (init example_env) (Path ''D:/data/Setup.EXE'')"
proof -
  have s: "lower (suffix (Path ''D:/data/Setup.EXE''))
             \<in> set (protected_extensions (init example_env))"
    by code_simp
  have o: "\<not> list_ex (\<lambda>d. path_eq (Path ''D:/data/Setup.EXE'') d
                         \<or> nested_under (Path ''D:/data/Setup.EXE'') d)
             (protected_dirs (init example_env))"
    by code_simp
  from protected_extension_unsafe [of "Path ''D:/data/Setup.EXE''" "init example_env"] s
  have "\<not> is_safe_to_delete (init example_env) (Path ''D:/data/Setup.EXE'')"
    by blast
  with s o show ?thesis by blast
qed


text \<open>
  Claim C7. For a category id that is not a key of the category table,
  \<^verbatim>\<open>scan_category\<close> returns the empty list and the size 0, and raises nothing.
\<close>

theorem scan_category_unknown:
  "category \<notin> set get_categories_keys \<Longrightarrow> scan_category c fs category = Inr ([], 0)"
proof -
  assume "category \<notin> set get_categories_keys"
  then have "category \<notin> fst ` set scan_methods"
    by (simp flip: scan_methods_keys)
  then have "map_of scan_methods category = None"
    by (simp add: map_of_eq_None_iff)
  then show ?thesis
    by (simp add: scan_category_def)
qed

theorem scan_category_unknown_witness:
  "''downloads'' \<notin> set get_categories_keys
   \<and> scan_category (init example_env) temp_scenario_fs ''downloads'' = Inr ([], 0)"
proof -
  have k: "''downloads'' \<notin> set get_categories_keys"
    by (simp add: get_categories_keys_def)
  from scan_category_unknown [OF k] k show ?thesis by blast
qed

text \<open>
  Claim C1. The safety filter guards both passes. On a plain file system, every name in
  the result of \<^verbatim>\<open>scan_category\<close> is read back by \<^verbatim>\<open>Path\<close> as a path that passes
  \<^verbatim>\<open>is_safe_to_delete\<close>; on any file system, every name is the \<^verbatim>\<open>str\<close> of a path
  that passed the filter during the scan. In \<^verbatim>\<open>clean_files\<close>, an iteration on a path
  that exists and fails the filter changes nothing but the error count, which grows by
  one: the file system is the same, so no removal was attempted. And every removal call a
  whole run of \<^verbatim>\<open>clean_files\<close> makes is on a path of the list that passes the filter.
\<close>

theorem safety_filter_invariant:
  "(plain_fs fs \<and> plain_cleaner c \<and> scan_category c fs category = Inr (files, total_size)
      \<longrightarrow> (\<forall>s \<in> set files. is_safe_to_delete c (Path s)))
   \<and> (scan_category c fs category = Inr (files, total_size) \<longrightarrow>
        (\<forall>s \<in> set files. \<exists>p. s = str p \<and> is_safe_to_delete c p))
   \<and> (exists (fs_of st) (Path file_path) = Inr True \<and> \<not> is_safe_to_delete c (Path file_path)
        \<longrightarrow> clean_iteration c st file_path = (Inr (), st\<lparr>errors := errors st + 1\<rparr>))
   \<and> (clean_files c fs paths = Inr (counters, fs') \<longrightarrow>
        (\<exists>calls. removal_calls fs' = removal_calls fs @ calls
           \<and> (\<forall>p \<in> set calls. p \<in> Path ` set paths \<and> is_safe_to_delete c p)))"
proof (intro conjI impI)
  assume "plain_fs fs \<and> plain_cleaner c
            \<and> scan_category c fs category = Inr (files, total_size)"
  then show "\<forall>s \<in> set files. is_safe_to_delete c (Path s)"
    using scan_category_plain by blast
next
  assume "scan_category c fs category = Inr (files, total_size)"
  then have "collected (\<lambda>p. True) c fs (files, total_size)"
    by (rule scan_category_collected_any)
  then show "\<forall>s \<in> set files. \<exists>p. s = str p \<and> is_safe_to_delete c p"
    by (fastforce simp: collected_def)
next
  assume "exists (fs_of st) (Path file_path) = Inr True
            \<and> \<not> is_safe_to_delete c (Path file_path)"
  then show "clean_iteration c st file_path = (Inr (), st\<lparr>errors := errors st + 1\<rparr>)"
    by (simp add: clean_iteration_def clean_try_def)
next
  assume a: "clean_files c fs paths = Inr (counters, fs')"
  from clean_files_summary [of c fs paths] a
  show "\<exists>calls. removal_calls fs' = removal_calls fs @ calls
           \<and> (\<forall>p \<in> set calls. p \<in> Path ` set paths \<and> is_safe_to_delete c p)"
    by auto
qed

theorem safety_filter_invariant_witness:
  "plain_fs temp_scenario_fs \<and> plain_cleaner (init example_env)
   \<and> scan_category (init example_env) temp_scenario_fs ''temp_user''
       = Inr ([str (Path ''C:/Temp/data.bin'')], 2048)
   \<and> is_safe_to_delete (init example_env) (Path (str (Path ''C:/Temp/data.bin'')))
   \<and> (\<exists>p. str (Path ''C:/Temp/data.bin'') = str p \<and> is_safe_to_delete (init example_env) p)
   \<and> exists (fs_of (start temp_scenario_fs)) (Path ''C:/Temp/setup.exe'') = Inr True
   \<and> \<not> is_safe_to_delete (init example_env) (Path ''C:/Temp/setup.exe'')
   \<and> clean_iteration (init example_env) (start temp_scenario_fs) ''C:/Temp/setup.exe''
       = (Inr (), (start temp_scenario_fs)\<lparr>errors := errors (start temp_scenario_fs) + 1\<rparr>)
   \<and> clean_files (init example_env) temp_scenario_fs [''C:/Temp/data.bin'', ''C:/Temp/setup.exe'']
       = Inr ((1, 2048, 1), after_data_bin)
   \<and> (\<exists>calls. removal_calls after_data_bin = removal_calls temp_scenario_fs @ calls
         \<and> (\<forall>p \<in> set calls. p \<in> Path ` set [''C:/Temp/data.bin'', ''C:/Temp/setup.exe'']
               \<and> is_safe_to_delete (init example_env) p))"
proof -
  note t = safety_filter_invariant [of temp_scenario_fs "init example_env" "''temp_user''"
      "[str (Path ''C:/Temp/data.bin'')]" 2048 "start temp_scenario_fs" "''C:/Temp/setup.exe''"
      "[''C:/Temp/data.bin'', ''C:/Temp/setup.exe'']" "(1, 2048, 1)" after_data_bin]
  have e: "exists (fs_of (start temp_scenario_fs)) (Path ''C:/Temp/setup.exe'') = Inr True"
    using exe_exists by (simp add: start_def)
  from t examples_plain(1,2) temp_scenario_scan
  have "is_safe_to_delete (init example_env) (Path (str (Path ''C:/Temp/data.bin'')))"
    by simp
  moreover from t temp_scenario_scan
  have "\<exists>p. str (Path ''C:/Temp/data.bin'') = str p \<and> is_safe_to_delete (init example_env) p"
    by simp
  moreover from t e exe_unsafe
  have "clean_iteration (init example_env) (start temp_scenario_fs) ''C:/Temp/setup.exe''
       = (Inr (), (start temp_scenario_fs)\<lparr>errors := errors (start temp_scenario_fs) + 1\<rparr>)"
    by blast
  moreover from t mixed_clean
  have "\<exists>calls. removal_calls after_data_bin = removal_calls temp_scenario_fs @ calls
         \<and> (\<forall>p \<in> set calls. p \<in> Path ` set [''C:/Temp/data.bin'', ''C:/Temp/setup.exe'']
               \<and> is_safe_to_delete (init example_env) p)"
    by blast
  ultimately show ?thesis
    using examples_plain(1,2) temp_scenario_scan e exe_unsafe mixed_clean by blast
qed

text \<open>
  Claim C2. \<^verbatim>\<open>clean_files\<close> is total over its list. Its result is the counters and
  the file system of the left fold of the iteration over the whole list, from counters
  at 0: each entry is taken once and in order, and the loop never stops early. An
  iteration always ends normally, and does exactly one thing to its entry: when
  \<^verbatim>\<open>exists\<close> raises it counts one error; when the path is absent it changes nothing;
  when the path exists and the filter rejects it, it counts one error; otherwise it
  makes one removal call, on that path, and either counts one removed file, adds its
  size and leaves the path absent, or counts one error. Whatever exception the body of
  the \<^verbatim>\<open>try\<close> raises is counted as one error. So removed and errors are not negative
  and together never exceed the length of the list, and the call makes at most one
  removal call for each entry.
\<close>

theorem clean_files_total:
  "clean_files c fs files =
     (let final = foldl (\<lambda>s f. snd (clean_iteration c s f)) (start fs) files
      in Inr ((removed final, size_freed final, errors final), fs_of final))
   \<and> clean_loop c st files = (Inr (), foldl (\<lambda>s f. snd (clean_iteration c s f)) st files)
   \<and> (\<exists>st'. clean_iteration c st f = (Inr (), st')
        \<and> (case exists (fs_of st) (Path f) of
             Inl e \<Rightarrow> st' = st\<lparr>errors := errors st + 1\<rparr>
           | Inr False \<Rightarrow> st' = st
           | Inr True \<Rightarrow>
               if \<not> is_safe_to_delete c (Path f) then st' = st\<lparr>errors := errors st + 1\<rparr>
               else removal_calls (fs_of st') = removal_calls (fs_of st) @ [Path f]
                    \<and> (\<exists>sz. get_file_size (fs_of st) (Path f) = Inr sz
                          \<and> (st' = st\<lparr>fs_of := fs_of st', removed := removed st + 1,
                                        size_freed := size_freed st + sz\<rparr>
                               \<and> exists (fs_of st') (Path f) = Inr False
                             \<or> st' = st\<lparr>fs_of := fs_of st', errors := errors st + 1\<rparr>))))
   \<and> (fst (clean_try c st f) = Inl e \<longrightarrow>
        clean_iteration c st f
          = (Inr (), (snd (clean_try c st f))\<lparr>errors := errors (snd (clean_try c st f)) + 1\<rparr>))
   \<and> (\<exists>n_removed freed n_errors fs' calls.
        clean_files c fs files = Inr ((n_removed, freed, n_errors), fs')
        \<and> 0 \<le> n_removed \<and> 0 \<le> n_errors \<and> n_removed + n_errors \<le> int (length files)
        \<and> removal_calls fs' = removal_calls fs @ calls \<and> length calls \<le> length files)"
proof (intro conjI impI)
  show "clean_files c fs files =
     (let final = foldl (\<lambda>s f. snd (clean_iteration c s f)) (start fs) files
      in Inr ((removed final, size_freed final, errors final), fs_of final))"
    by (simp add: clean_files_def clean_loop_foldl Let_def)
next
  show "clean_loop c st files = (Inr (), foldl (\<lambda>s f. snd (clean_iteration c s f)) st files)"
    by (rule clean_loop_foldl)
next
  show "\<exists>st'. clean_iteration c st f = (Inr (), st')
        \<and> (case exists (fs_of st) (Path f) of
             Inl e \<Rightarrow> st' = st\<lparr>errors := errors st + 1\<rparr>
           | Inr False \<Rightarrow> st' = st
           | Inr True \<Rightarrow>
               if \<not> is_safe_to_delete c (Path f) then st' = st\<lparr>errors := errors st + 1\<rparr>
               else removal_calls (fs_of st') = removal_calls (fs_of st) @ [Path f]
                    \<and> (\<exists>sz. get_file_size (fs_of st) (Path f) = Inr sz
                          \<and> (st' = st\<lparr>fs_of := fs_of st', removed := removed st + 1,
                                        size_freed := size_freed st + sz\<rparr>
                               \<and> exists (fs_of st') (Path f) = Inr False
                             \<or> st' = st\<lparr>fs_of := fs_of st', errors := errors st + 1\<rparr>)))"
    by (rule clean_iteration_cases)
next
  assume "fst (clean_try c st f) = Inl e"
  then show "clean_iteration c st f
          = (Inr (), (snd (clean_try c st f))\<lparr>errors := errors (snd (clean_try c st f)) + 1\<rparr>)"
    by (cases "clean_try c st f") (simp add: clean_iteration_def)
next
  from clean_files_summary [of c fs files]
  show "\<exists>n_removed freed n_errors fs' calls.
        clean_files c fs files = Inr ((n_removed, freed, n_errors), fs')
        \<and> 0 \<le> n_removed \<and> 0 \<le> n_errors \<and> n_removed + n_errors \<le> int (length files)
        \<and> removal_calls fs' = removal_calls fs @ calls \<and> length calls \<le> length files"
    by blast
qed

theorem clean_files_total_witness:
  "fst (clean_try (init example_env) (start locked_fs) ''C:/Temp/locked.tmp'') = Inl PermissionError
   \<and> clean_iteration (init example_env) (start locked_fs) ''C:/Temp/locked.tmp''
       = (Inr (), (start locked_fs)\<lparr>errors := errors (start locked_fs) + 1\<rparr>)"
proof -
  have h: "fst (clean_try (init example_env) (start locked_fs) ''C:/Temp/locked.tmp'')
             = Inl PermissionError"
    by (simp add: locked_try)
  from clean_files_total [where c = "init example_env" and st = "start locked_fs"
      and f = "''C:/Temp/locked.tmp''" and e = PermissionError] h
  have "clean_iteration (init example_env) (start locked_fs) ''C:/Temp/locked.tmp''
      = (Inr (), (snd (clean_try (init example_env) (start locked_fs) ''C:/Temp/locked.tmp''))
           \<lparr>errors := errors (snd (clean_try (init example_env) (start locked_fs)
                                     ''C:/Temp/locked.tmp'')) + 1\<rparr>)"
    by blast
  with h show ?thesis
    by (simp add: locked_try)
qed

text \<open>
  Claim C5. For every category, the total size \<^verbatim>\<open>scan_category\<close> returns is exactly
  the sum of the sizes of the returned names, one summand for each entry of the list (a
  file that the scan lists twice is counted twice). On a plain file system the size of
  a name is what \<^verbatim>\<open>get_file_size\<close> returns for the path \<^verbatim>\<open>Path\<close> reads from it, so
  the list determines the total; on any file system the sizes are those of the paths
  the scan listed.
\<close>

theorem scan_category_total_size:
  "(plain_fs fs \<and> plain_cleaner c \<and> scan_category c fs category = Inr (files, total_size)
      \<longrightarrow> (\<exists>sizes. map (\<lambda>s. get_file_size fs (Path s)) files = map Inr sizes
             \<and> total_size = sum_list sizes))
   \<and> (scan_category c fs category = Inr (files, total_size) \<longrightarrow>
        (\<exists>ps sizes. files = map str ps \<and> map (get_file_size fs) ps = map Inr sizes
           \<and> total_size = sum_list sizes))"
proof (intro conjI impI)
  assume "plain_fs fs \<and> plain_cleaner c
            \<and> scan_category c fs category = Inr (files, total_size)"
  then show "\<exists>sizes. map (\<lambda>s. get_file_size fs (Path s)) files = map Inr sizes
             \<and> total_size = sum_list sizes"
    using scan_category_plain by blast
next
  assume "scan_category c fs category = Inr (files, total_size)"
  then have "collected (\<lambda>p. True) c fs (files, total_size)"
    by (rule scan_category_collected_any)
  then show "\<exists>ps sizes. files = map str ps \<and> map (get_file_size fs) ps = map Inr sizes
           \<and> total_size = sum_list sizes"
    by (auto simp: collected_def)
qed

theorem scan_category_total_size_witness:
  "plain_fs old_files_fs \<and> plain_cleaner (init example_env)
   \<and> scan_category (init example_env) old_files_fs ''old_files''
       = Inr ([str (Path ''C:/Temp/a.tmp''), str (Path ''C:/Temp/~b.tmp''),
               str (Path ''C:/Temp/~b.tmp'')], 20)
   \<and> map (\<lambda>s. get_file_size old_files_fs (Path s))
         [str (Path ''C:/Temp/a.tmp''), str (Path ''C:/Temp/~b.tmp''),
          str (Path ''C:/Temp/~b.tmp'')]
       = map Inr [10, 5, 5]
   \<and> (\<exists>sizes. map (\<lambda>s. get_file_size old_files_fs (Path s))
                  [str (Path ''C:/Temp/a.tmp''), str (Path ''C:/Temp/~b.tmp''),
                   str (Path ''C:/Temp/~b.tmp'')]
                = map Inr sizes
          \<and> 20 = sum_list sizes)"
proof -
  note t = scan_category_total_size [of old_files_fs "init example_env" "''old_files''"
      "[str (Path ''C:/Temp/a.tmp''), str (Path ''C:/Temp/~b.tmp''),
        str (Path ''C:/Temp/~b.tmp'')]" 20]
  from t examples_plain(1,3) old_files_scan
  have "\<exists>sizes. map (\<lambda>s. get_file_size old_files_fs (Path s))
                  [str (Path ''C:/Temp/a.tmp''), str (Path ''C:/Temp/~b.tmp''),
                   str (Path ''C:/Temp/~b.tmp'')]
                = map Inr sizes
          \<and> 20 = sum_list sizes"
    by blast
  with examples_plain(1,3) old_files_scan old_files_sizes show ?thesis
    by blast
qed

text \<open>
  Claim C6. A path that does not exist when its turn comes is skipped silently: the
  iteration leaves every counter and the file system as they were, and the whole loop
  gives the same result as on the list without that entry. With three files listed and
  the second one gone before the call, \<^verbatim>\<open>clean_files\<close> reports 2 removed and
  0 errors (40 bytes freed).
\<close>

theorem clean_iteration_skips_missing:
  "(exists (fs_of st) (Path f) = Inr False \<longrightarrow> clean_iteration c st f = (Inr (), st))
   \<and> (clean_loop c st xs = (Inr (), st1) \<and> exists (fs_of st1) (Path f) = Inr False \<longrightarrow>
        clean_loop c st (xs @ f # ys) = clean_loop c st (xs @ ys))
   \<and> map_sum id fst (clean_files (init example_env) three_files_fs
          [''C:/Temp/a.tmp'', ''C:/Temp/b.tmp'', ''C:/Temp/c.tmp'']) = Inr (2, 40, 0)"
proof (intro conjI impI)
  assume "exists (fs_of st) (Path f) = Inr False"
  then show "clean_iteration c st f = (Inr (), st)"
    by (simp add: clean_iteration_def clean_try_def)
next
  assume a: "clean_loop c st xs = (Inr (), st1) \<and> exists (fs_of st1) (Path f) = Inr False"
  then have "clean_iteration c st1 f = (Inr (), st1)"
    by (simp add: clean_iteration_def clean_try_def)
  with a show "clean_loop c st (xs @ f # ys) = clean_loop c st (xs @ ys)"
    by (simp add: clean_loop_append)
next
  show "map_sum id fst (clean_files (init example_env) three_files_fs
          [''C:/Temp/a.tmp'', ''C:/Temp/b.tmp'', ''C:/Temp/c.tmp'']) = Inr (2, 40, 0)"
    by (rule three_files_clean)
qed

theorem clean_iteration_skips_missing_witness:
  "exists (fs_of (start three_files_fs)) (Path ''C:/Temp/b.tmp'') = Inr False
   \<and> clean_iteration (init example_env) (start three_files_fs) ''C:/Temp/b.tmp''
       = (Inr (), start three_files_fs)
   \<and> clean_loop (init example_env) (start three_files_fs) [''C:/Temp/a.tmp'']
       = (Inr (), \<lparr>fs_of = \<lparr>entries = [(Path ''C:/Temp'', plain_dir),
                                          (Path ''C:/Temp/c.tmp'', plain_file 30)],
                               removal_calls = [Path ''C:/Temp/a.tmp'']\<rparr>,
                    removed = 1, size_freed = 10, errors = 0\<rparr>)
   \<and> clean_loop (init example_env) (start three_files_fs)
         ([''C:/Temp/a.tmp''] @ ''C:/Temp/b.tmp'' # [''C:/Temp/c.tmp''])
       = clean_loop (init example_env) (start three_files_fs)
           ([''C:/Temp/a.tmp''] @ [''C:/Temp/c.tmp''])"
proof -
  let ?st1 = "\<lparr>fs_of = \<lparr>entries = [(Path ''C:/Temp'', plain_dir),
                                          (Path ''C:/Temp/c.tmp'', plain_file 30)],
                               removal_calls = [Path ''C:/Temp/a.tmp'']\<rparr>,
                    removed = 1, size_freed = 10, errors = 0\<rparr>"
  have e: "exists (fs_of (start three_files_fs)) (Path ''C:/Temp/b.tmp'') = Inr False"
    using b_missing by (simp add: start_def)
  have e1: "exists (fs_of ?st1) (Path ''C:/Temp/b.tmp'') = Inr False"
    using b_missing_later by simp
  note t1 = clean_iteration_skips_missing [of "start three_files_fs" "''C:/Temp/b.tmp''"
      "init example_env" "[]" "start three_files_fs" "[]"]
  note t2 = clean_iteration_skips_missing [of "start three_files_fs" "''C:/Temp/b.tmp''"
      "init example_env" "[''C:/Temp/a.tmp'']" ?st1 "[''C:/Temp/c.tmp'']"]
  from t1 e
  have "clean_iteration (init example_env) (start three_files_fs) ''C:/Temp/b.tmp''
       = (Inr (), start three_files_fs)"
    by blast
  moreover from t2 a_cleaned e1
  have "clean_loop (init example_env) (start three_files_fs)
         ([''C:/Temp/a.tmp''] @ ''C:/Temp/b.tmp'' # [''C:/Temp/c.tmp''])
       = clean_loop (init example_env) (start three_files_fs)
           ([''C:/Temp/a.tmp''] @ [''C:/Temp/c.tmp''])"
    by blast
  ultimately show ?thesis
    using e a_cleaned by blast
qed

text \<open>
  Claim C8 says that a scan whose root comes from an unset variable is empty. The code
  reads an unset \<^verbatim>\<open>TEMP\<close> as the empty string, and \<^verbatim>\<open>Path('')\<close> is the current
  directory, which exists: the scan of the user's temp files then lists the files of
  the current directory. (A root that does not exist does give the empty result:
  lemma \<open>scan_directory_absent\<close>.)
\<close>

theorem scan_temp_user_unset_env:
  "environ_get unset_env ''TEMP'' '''' = ''''
   \<and> temp_dir (init unset_env) = Path ''''
   \<and> exists cwd_fs (Path '''') = Inr True
   \<and> scan_category (init unset_env) cwd_fs ''temp_user''
       = Inr ([''notes.txt'', ''sub'' @ [sep] @ ''x.tmp''], 10)"
proof (intro conjI)
  show "environ_get unset_env ''TEMP'' '''' = ''''"
    by (simp add: environ_get_def unset_env_def)
  show "temp_dir (init unset_env) = Path ''''"
    by (simp add: init_def environ_get_def unset_env_def)
  show "exists cwd_fs (Path '''') = Inr True"
    by code_simp
  show "scan_category (init unset_env) cwd_fs ''temp_user''
       = Inr ([''notes.txt'', ''sub'' @ [sep] @ ''x.tmp''], 10)"
    by (rule cwd_scan)
qed

text \<open>
  Claim C9, as stated, fails on a list holding a file that exists and that the safety
  filter rejects: the first call attempts no removal and counts one error, and so does
  the second.
\<close>

theorem clean_files_twice_counterexample:
  "clean_files (init example_env) temp_scenario_fs [''C:/Temp/setup.exe'']
     = Inr ((0, 0, 1), temp_scenario_fs)
   \<and> (0 :: int) = int (length (removal_calls temp_scenario_fs))
                    - int (length (removal_calls temp_scenario_fs))
   \<and> map_sum id fst
        (clean_files (init example_env)
           (snd (projr (clean_files (init example_env) temp_scenario_fs [''C:/Temp/setup.exe''])))
           [''C:/Temp/setup.exe''])
       = Inr (0, 0, 1)"
  by (simp add: exe_clean)

text \<open>
  Claim C9, amended. When every removal the first call attempted succeeded (its count
  of removed files is the number of removal calls it made), a second call on the same
  list removes nothing, frees nothing, leaves the file system as it is and reports at
  most as many errors as the first call: none when the first call reported none.
  The entries that are counted again are those the filter rejects or whose \<^verbatim>\<open>stat\<close>
  is refused.
\<close>

theorem clean_files_twice:
  assumes "clean_files c fs files = Inr ((removed1, freed1, errors1), fs1)"
    and "removed1 = int (length (removal_calls fs1)) - int (length (removal_calls fs))"
  shows "\<exists>errors2. clean_files c fs1 files = Inr ((0, 0, errors2), fs1)
           \<and> 0 \<le> errors2 \<and> errors2 \<le> errors1"
proof -
  from clean_files_summary [of c fs files] assms(1) obtain st'
    where l: "clean_loop c (start fs) files = (Inr (), st')"
      and st': "removed st' = removed1" "errors st' = errors1" "fs_of st' = fs1"
    by auto
  from assms(2) st'
  have "removed st' - removed (start fs)
          = int (length (removal_calls (fs_of st')))
            - int (length (removal_calls (fs_of (start fs))))"
    by (simp add: start_def)
  from first_pass [OF l this] st'
  have s: "\<forall>f \<in> set files. settled c fs1 f"
    and b: "sum_list (map (counted fs1) files) \<le> errors1"
    by (simp_all add: start_def)
  from s have "\<forall>f \<in> set files. settled c (fs_of (start fs1)) f"
    by (simp add: start_def)
  from second_pass [OF this]
  have "clean_files c fs1 files = Inr ((0, 0, sum_list (map (counted fs1) files)), fs1)"
    by (simp add: clean_files_def start_def)
  with b counted_nonneg [of fs1 files] show ?thesis by blast
qed

theorem clean_files_twice_witness:
  "clean_files (init example_env) temp_scenario_fs [''C:/Temp/data.bin'', ''C:/Temp/setup.exe'']
     = Inr ((1, 2048, 1), after_data_bin)
   \<and> (1 :: int) = int (length (removal_calls after_data_bin))
                    - int (length (removal_calls temp_scenario_fs))
   \<and> (\<exists>errors2. clean_files (init example_env) after_data_bin
                      [''C:/Temp/data.bin'', ''C:/Temp/setup.exe'']
                    = Inr ((0, 0, errors2), after_data_bin)
          \<and> 0 \<le> errors2 \<and> errors2 \<le> 1)"
proof -
  have h: "(1 :: int) = int (length (removal_calls after_data_bin))
                    - int (length (removal_calls temp_scenario_fs))"
    by (simp add: after_data_bin_def temp_scenario_fs_def)
  from clean_files_twice [OF mixed_clean h] mixed_clean h show ?thesis
    by blast
qed

text \<open>
  Claim C10, as stated, fails for the scans of \<^verbatim>\<open>_scan_directory\<close>: a file of the
  scanned directory whose \<^verbatim>\<open>stat\<close> is refused has no readable size
  (\<^verbatim>\<open>get_file_size\<close> gives 0), passes the safety filter, and is not listed:
  \<^verbatim>\<open>is_file\<close> raises before the size is asked for, and the scan of the directory
  ends there.
\<close>

theorem unreadable_file_not_listed_counterexample:
  "temp_dir (init example_env) = Path ''C:/Temp''
   \<and> stat locked_fs (Path ''C:/Temp/locked.tmp'') = Inl PermissionError
   \<and> get_file_size locked_fs (Path ''C:/Temp/locked.tmp'') = Inr 0
   \<and> is_safe_to_delete (init example_env) (Path ''C:/Temp/locked.tmp'')
   \<and> scan_category (init example_env) locked_fs ''temp_user'' = Inr ([], 0)"
proof (intro conjI)
  show "temp_dir (init example_env) = Path ''C:/Temp''"
    by (simp add: init_def example_env_def environ_get_def)
  show "stat locked_fs (Path ''C:/Temp/locked.tmp'') = Inl PermissionError"
    by (rule locked_stat)
  show "get_file_size locked_fs (Path ''C:/Temp/locked.tmp'') = Inr 0"
    using locked_stat by (rule get_file_size_stat_error)
  show "is_safe_to_delete (init example_env) (Path ''C:/Temp/locked.tmp'')"
    by (rule locked_safe)
  show "scan_category (init example_env) locked_fs ''temp_user'' = Inr ([], 0)"
    by (rule locked_scan)
qed

text \<open>
  Claim C10, amended. \<^verbatim>\<open>get_file_size\<close> never raises and returns a size that is not
  negative; it returns 0 for a path that does not exist and for a path whose
  \<^verbatim>\<open>stat\<close> fails. The scan of the thumbnail cache, which does not call
  \<^verbatim>\<open>is_file\<close>, lists a path that the filter accepts even when its \<^verbatim>\<open>stat\<close>
  fails, and adds 0 to the total. The loop of \<^verbatim>\<open>_scan_directory\<close> stops at a path
  whose \<^verbatim>\<open>stat\<close> is refused, without listing it and keeping what it had collected,
  and a path that its \<^verbatim>\<open>is_file\<close> test accepts has its size read. The total size
  of a scan and the bytes freed by a cleaning are never negative. In the example, the
  scan of the Windows cache lists both thumbnail files, and the one whose \<^verbatim>\<open>stat\<close>
  is refused adds nothing to the total of 9.
\<close>

theorem get_file_size_never_raises:
  "(\<exists>n. get_file_size fs p = Inr n \<and> 0 \<le> n)
   \<and> (exists fs p = Inr False \<longrightarrow> get_file_size fs p = Inr 0)
   \<and> (stat fs p = Inl e \<longrightarrow> get_file_size fs p = Inr 0)
   \<and> (is_safe_to_delete c p \<and> stat fs p = Inl e \<longrightarrow>
        scan_thumbnails c fs (p # rest) (files, total_size)
          = scan_thumbnails c fs rest (files @ [str p], total_size))
   \<and> (stat fs p = Inl PermissionError \<longrightarrow>
        scan_files c fs (p # rest) (files, total_size)
          = (Inl PermissionError, (files, total_size)))
   \<and> (is_file fs p = Inr True \<longrightarrow>
        (\<exists>n. stat fs p = Inr n \<and> get_file_size fs p = Inr (st_size n)))
   \<and> (scan_category c fs category = Inr (found, found_size) \<longrightarrow> 0 \<le> found_size)
   \<and> (clean_files c fs paths = Inr ((n_removed, freed, n_errors), fs') \<longrightarrow> 0 \<le> freed)
   \<and> scan_category (init example_env) thumb_fs ''windows_cache''
       = Inr ([str (Path ''C:/Users/david/AppData/Local/Microsoft/Windows/Explorer/thumbcache_32.db''),
               str (Path ''C:/Users/david/AppData/Local/Microsoft/Windows/Explorer/thumbcache_64.db'')],
              9)"
proof (intro conjI impI)
  show "\<exists>n. get_file_size fs p = Inr n \<and> 0 \<le> n"
    by (rule get_file_size_total)
next
  assume "exists fs p = Inr False"
  then have "lookup fs p = None"
    by (auto simp: exists_lookup split: option.splits if_splits)
  then have "stat fs p = Inl FileNotFoundError"
    by (simp add: stat_def)
  then show "get_file_size fs p = Inr 0"
    by (rule get_file_size_stat_error)
next
  assume "stat fs p = Inl e"
  then show "get_file_size fs p = Inr 0"
    by (rule get_file_size_stat_error)
next
  assume "is_safe_to_delete c p \<and> stat fs p = Inl e"
  then show "scan_thumbnails c fs (p # rest) (files, total_size)
          = scan_thumbnails c fs rest (files @ [str p], total_size)"
    by (simp add: get_file_size_stat_error)
next
  assume "stat fs p = Inl PermissionError"
  then show "scan_files c fs (p # rest) (files, total_size)
          = (Inl PermissionError, (files, total_size))"
    by (rule scan_files_stat_refused)
next
  assume "is_file fs p = Inr True"
  then show "\<exists>n. stat fs p = Inr n \<and> get_file_size fs p = Inr (st_size n)"
    by (rule is_file_size)
next
  assume "scan_category c fs category = Inr (found, found_size)"
  then have "collected (\<lambda>p. True) c fs (found, found_size)"
    by (rule scan_category_collected_any)
  then show "0 \<le> found_size"
    by (rule collected_nonneg)
next
  assume a: "clean_files c fs paths = Inr ((n_removed, freed, n_errors), fs')"
  from clean_files_summary [of c fs paths] a show "0 \<le> freed"
    by auto
next
  show "scan_category (init example_env) thumb_fs ''windows_cache''
       = Inr ([str (Path ''C:/Users/david/AppData/Local/Microsoft/Windows/Explorer/thumbcache_32.db''),
               str (Path ''C:/Users/david/AppData/Local/Microsoft/Windows/Explorer/thumbcache_64.db'')],
              9)"
    by (rule thumb_scan)
qed

theorem get_file_size_never_raises_witness:
  "exists three_files_fs (Path ''C:/Temp/b.tmp'') = Inr False
   \<and> get_file_size three_files_fs (Path ''C:/Temp/b.tmp'') = Inr 0
   \<and> stat thumb_fs
         (Path ''C:/Users/david/AppData/Local/Microsoft/Windows/Explorer/thumbcache_32.db'')
       = Inl PermissionError
   \<and> get_file_size thumb_fs
         (Path ''C:/Users/david/AppData/Local/Microsoft/Windows/Explorer/thumbcache_32.db'')
       = Inr 0
   \<and> is_safe_to_delete (init example_env)
         (Path ''C:/Users/david/AppData/Local/Microsoft/Windows/Explorer/thumbcache_32.db'')
   \<and> scan_thumbnails (init example_env) thumb_fs
         [Path ''C:/Users/david/AppData/Local/Microsoft/Windows/Explorer/thumbcache_32.db'']
         ([], 0)
       = scan_thumbnails (init example_env) thumb_fs []
           ([] @ [str (Path ''C:/Users/david/AppData/Local/Microsoft/Windows/Explorer/thumbcache_32.db'')],
            0)
   \<and> stat locked_fs (Path ''C:/Temp/locked.tmp'') = Inl PermissionError
   \<and> scan_files (init example_env) locked_fs [Path ''C:/Temp/locked.tmp''] ([], 0)
       = (Inl PermissionError, ([], 0))
   \<and> is_file temp_scenario_fs (Path ''C:/Temp/data.bin'') = Inr True
   \<and> (\<exists>n. stat temp_scenario_fs (Path ''C:/Temp/data.bin'') = Inr n
          \<and> get_file_size temp_scenario_fs (Path ''C:/Temp/data.bin'') = Inr (st_size n))
   \<and> scan_category (init example_env) temp_scenario_fs ''temp_user''
       = Inr ([str (Path ''C:/Temp/data.bin'')], 2048)
   \<and> clean_files (init example_env) temp_scenario_fs [''C:/Temp/data.bin'', ''C:/Temp/setup.exe'']
       = Inr ((1, 2048, 1), after_data_bin)
   \<and> (0 :: int) \<le> 2048"
proof -
  let ?t = "Path ''C:/Users/david/AppData/Local/Microsoft/Windows/Explorer/thumbcache_32.db''"
  note a = get_file_size_never_raises [where fs = three_files_fs and p = "Path ''C:/Temp/b.tmp''"]
  note b = get_file_size_never_raises [where fs = thumb_fs and p = ?t and e = PermissionError
      and c = "init example_env" and rest = "[]" and files = "[]" and total_size = 0]
  note l = get_file_size_never_raises [where fs = locked_fs and p = "Path ''C:/Temp/locked.tmp''"
      and c = "init example_env" and rest = "[]" and files = "[]" and total_size = 0]
  note d = get_file_size_never_raises [where fs = temp_scenario_fs and c = "init example_env"
      and p = "Path ''C:/Temp/data.bin''"
      and category = "''temp_user''" and found = "[str (Path ''C:/Temp/data.bin'')]"
      and found_size = 2048 and paths = "[''C:/Temp/data.bin'', ''C:/Temp/setup.exe'']"
      and n_removed = 1 and freed = 2048 and n_errors = 1 and fs' = after_data_bin]
  from a b_missing have "get_file_size three_files_fs (Path ''C:/Temp/b.tmp'') = Inr 0"
    by blast
  moreover from b thumb_stat have "get_file_size thumb_fs ?t = Inr 0"
    by blast
  moreover from b thumb_stat thumb_safe
  have "scan_thumbnails (init example_env) thumb_fs [?t] ([], 0)
       = scan_thumbnails (init example_env) thumb_fs [] ([] @ [str ?t], 0)"
    by blast
  moreover from l locked_stat
  have "scan_files (init example_env) locked_fs [Path ''C:/Temp/locked.tmp''] ([], 0)
       = (Inl PermissionError, ([], 0))"
    by blast
  moreover from d data_bin_is_file
  have "\<exists>n. stat temp_scenario_fs (Path ''C:/Temp/data.bin'') = Inr n
          \<and> get_file_size temp_scenario_fs (Path ''C:/Temp/data.bin'') = Inr (st_size n)"
    by blast
  moreover from d temp_scenario_scan mixed_clean have "(0 :: int) \<le> 2048"
    by blast
  ultimately show ?thesis
    using b_missing thumb_stat thumb_safe locked_stat data_bin_is_file temp_scenario_scan
      mixed_clean by blast
qed

end
